theory Spec2Isabelle
  imports Main "HOL-Library.Word"
begin

section \<open>GUI: which downloads the pause button targets (WidgetDownloads.cpp)\<close>

text \<open>
  The table model \<open>DownloadsModel\<close> is declared outside the three source files. The three
  accessors that \<open>WidgetDownloads::getDownloadIDsToPause\<close> calls on it are taken as
  parameters, collected in a record: a row number goes in, the download ID (\<open>quint64\<close>),
  the completion flag and the pause flag of that row come out.
\<close>

record downloadsModel =
  getDownloadID :: "int \<Rightarrow> 64 word"
  isFileComplete :: "int \<Rightarrow> bool"
  isDownloadPaused :: "int \<Rightarrow> bool"

text \<open>
  The body of the \<open>for\<close> loop of \<open>getDownloadIDsToPause\<close>, over the rows of the selection,
  with the two local variables \<open>downloadIDs\<close> and \<open>allPaused\<close> as accumulator.
\<close>

fun pauseLoop :: "downloadsModel \<Rightarrow> int list \<Rightarrow> 64 word list \<times> bool \<Rightarrow> 64 word list \<times> bool" where
  "pauseLoop m [] acc = acc"
| "pauseLoop m (row # rows) (downloadIDs, allPaused) =
     (let ID = getDownloadID m row in
      if ID \<noteq> 0 \<and> \<not> isFileComplete m row
      then pauseLoop m rows
             (downloadIDs @ [ID], if \<not> isDownloadPaused m row then False else allPaused)
      else pauseLoop m rows (downloadIDs, allPaused))"

definition getDownloadIDsToPause :: "downloadsModel \<Rightarrow> int list \<Rightarrow> 64 word list \<times> bool" where
  "getDownloadIDsToPause m selectedRows =
     (case pauseLoop m selectedRows ([], True) of
        (downloadIDs, allPaused) \<Rightarrow> (downloadIDs, \<not> allPaused))"

text \<open>
  The requests a slot sends to the core through \<open>coreConnection\<close>; a slot returns the list
  of the requests it issued.
\<close>

datatype coreRequest =
    PauseDownloads "64 word list" bool
  | CancelDownloads "64 word list" bool

definition pauseSelectedEntries :: "downloadsModel \<Rightarrow> int list \<Rightarrow> coreRequest list" where
  "pauseSelectedEntries m selectedRows =
     (let IDs = getDownloadIDsToPause m selectedRows in
      if fst IDs \<noteq> [] then [PauseDownloads (fst IDs) (snd IDs)] else [])"

text \<open>The rows the pause button acts on: a known download that is not complete.\<close>

definition pausable :: "downloadsModel \<Rightarrow> int \<Rightarrow> bool" where
  "pausable m row \<longleftrightarrow> getDownloadID m row \<noteq> 0 \<and> \<not> isFileComplete m row"

text \<open>
  A selection of four rows: row 0 is a running download, row 1 is complete, row 2 has no ID,
  row 3 is a paused download. Rows 0 and 3 are targeted, and the request pauses.
\<close>

definition exampleModel :: downloadsModel where
  "exampleModel =
     \<lparr> getDownloadID = (\<lambda>row. if row = 2 then 0 else word_of_int (row + 10)),
       isFileComplete = (\<lambda>row. row = 1),
       isDownloadPaused = (\<lambda>row. row = 3) \<rparr>"

section \<open>Download manager: data (DownloadManager.cpp)\<close>

text \<open>
  Modelled from the spec: the protobuf message \<open>Protos::Common::Entry\<close> is generated
  outside the source files; its fields are those of the data model,
  \<open>{type, path, name, size, hashes[]?, is_empty?}\<close>. The size is a 64-bit unsigned
  integer, a hash and a peer identifier are byte strings.
\<close>

datatype entry_type = Entry_Type_FILE | Entry_Type_DIR

type_synonym hash = string

record entry =
  e_type :: entry_type
  e_path :: string
  e_name :: string
  e_size :: "64 word"
  e_chunk :: "hash list"
  e_is_empty :: bool

text \<open>
  The queue is a \<open>QList<Download*>\<close>. A queued object is identified by its address
  (\<open>addr\<close>, compared where the source compares pointers); the entry, the identifier of
  the source peer and, for a file, the \<open>complete\<close> argument of the constructor are
  fixed at construction. What an object changes during its life is kept beside the queue,
  keyed by the address (fields \<open>dirRetrieving\<close>, \<open>fileStatus\<close>) or in the list of all
  chunk downloads (\<open>chunks\<close>).
\<close>

datatype download =
    FileDownload nat entry hash bool
  | DirDownload nat entry hash

fun addr :: "download \<Rightarrow> nat" where
  "addr (FileDownload a e p c) = a"
| "addr (DirDownload a e p) = a"

fun getEntry :: "download \<Rightarrow> entry" where
  "getEntry (FileDownload a e p c) = e"
| "getEntry (DirDownload a e p) = e"

fun getPeerSourceID :: "download \<Rightarrow> hash" where
  "getPeerSourceID (FileDownload a e p c) = p"
| "getPeerSourceID (DirDownload a e p) = p"

fun isComplete :: "download \<Rightarrow> bool" where
  "isComplete (FileDownload a e p c) = c"
| "isComplete (DirDownload a e p) = False"

text \<open>
  Modelled from the spec: \<open>ChunkDownload\<close> is declared outside the source files. Its
  state is \<open>{chunk-hash, known-holders, status \<in> {IDLE, DOWNLOADING, COMPLETE, FAILED}}\<close>;
  \<open>owner\<close> is the address of the file download that owns it, \<open>currentPeer\<close> the holder
  reserved while it downloads, and \<open>connections\<close> counts the Qt connections from its signal
  \<open>downloadFinished\<close> to the manager's slot \<open>chunkDownloadFinished\<close>.
\<close>

datatype chunkStatus = IDLE | DOWNLOADING | CHUNK_COMPLETE | FAILED

record chunkDownload =
  owner :: nat
  chunkHash :: hash
  knownHolders :: "hash list"
  c_status :: chunkStatus
  currentPeer :: "hash option"
  connections :: nat

text \<open>
  Modelled from the spec: the persisted queue record \<open>Protos::Queue::Queue\<close>,
  \<open>{version, entries:[{entry, peer_id{hash}, complete}]}\<close>, and the store
  \<open>Common::PersistentData\<close> (\<open>get(name) \<rightarrow> bytes | missing\<close>, \<open>set\<close>, \<open>remove\<close>). Of
  the store only the value under the name \<open>Common::FILE_QUEUE\<close> is kept: absent, bytes
  that do not parse as a queue record, or a record.
\<close>

record queue_entry =
  qe_entry :: entry
  qe_peer_id :: hash
  qe_complete :: bool

record queue =
  version :: "32 word"
  q_entry :: "queue_entry list"

datatype stored = Unreadable | Saved queue

datatype exn = UnknownValueException | PersistentDataIOException | OtherException

datatype severity = WARN | ERRO

record qtimer =
  interval :: int
  singleShot :: bool
  active :: bool

text \<open>
  The members of \<open>DownloadManager\<close> (\<open>NUMBER_OF_DOWNLOADER\<close>, \<open>downloads\<close>,
  \<open>numberOfDownload\<close>, \<open>retrievingEntries\<close>, \<open>timer\<close>,
  \<open>occupiedPeersDownloadingChunk\<close>), followed by what the manager reaches through
  pointers and globals: the allocator (\<open>nextAddr\<close>), the state of the queued objects, the
  persistent store and the log (messages of level WARN and ERROR, without their arguments).
  \<open>increments\<close> and \<open>decrements\<close> are history variables that are not in the source: they
  count the executions of \<open>numberOfDownload++\<close> and \<open>numberOfDownload--\<close>.
\<close>

record downloadManager =
  NUMBER_OF_DOWNLOADER :: int
  downloads :: "download list"
  numberOfDownload :: int
  retrievingEntries :: bool
  timer :: qtimer
  occupiedPeersDownloadingChunk :: "hash list"
  nextAddr :: nat
  dirRetrieving :: "nat \<Rightarrow> bool"
  fileStatus :: "nat \<Rightarrow> int"
  chunks :: "chunkDownload list"
  fileQueue :: "stored option"
  storeWritable :: bool
  logged :: "(severity \<times> string) list"
  increments :: nat
  decrements :: nat

text \<open>
  The constructor. The setting \<open>number_of_downloader\<close> is a \<open>quint32\<close>;
  \<open>static_cast<int>\<close> reads the same 32 bits as a signed integer. The period
  \<open>RESCAN_QUEUE_PERIOD_IF_ERROR\<close> is a constant declared outside the source files and is a
  parameter, as is what the persistent store holds when the program starts.
\<close>

definition DownloadManager :: "32 word \<Rightarrow> int \<Rightarrow> stored option \<Rightarrow> bool \<Rightarrow> downloadManager" where
  "DownloadManager number_of_downloader RESCAN_QUEUE_PERIOD_IF_ERROR store writable =
     \<lparr> NUMBER_OF_DOWNLOADER = sint number_of_downloader,
       downloads = [],
       numberOfDownload = 0,
       retrievingEntries = False,
       timer = \<lparr> interval = RESCAN_QUEUE_PERIOD_IF_ERROR, singleShot = True, active = False \<rparr>,
       occupiedPeersDownloadingChunk = [],
       nextAddr = 0,
       dirRetrieving = (\<lambda>a. False),
       fileStatus = (\<lambda>a. 0),
       chunks = [],
       fileQueue = store,
       storeWritable = writable,
       logged = [],
       increments = 0,
       decrements = 0 \<rparr>"

section \<open>Download manager: the queue\<close>

text \<open>\<open>isEntryAlreadyQueued\<close>: the loop returns at the first download with the same four fields.\<close>

fun entryQueuedLoop :: "download list \<Rightarrow> entry \<Rightarrow> bool" where
  "entryQueuedLoop [] entry = False"
| "entryQueuedLoop (download # rest) entry =
     (if e_type (getEntry download) = e_type entry \<and>
         e_path (getEntry download) = e_path entry \<and>
         e_name (getEntry download) = e_name entry \<and>
         e_size (getEntry download) = e_size entry
      then True
      else entryQueuedLoop rest entry)"

definition isEntryAlreadyQueued :: "downloadManager \<Rightarrow> entry \<Rightarrow> bool" where
  "isEntryAlreadyQueued s entry = entryQueuedLoop (downloads s) entry"

text \<open>
  Modelled from the spec: \<open>DirDownload::retrieveEntries\<close> is declared outside the source
  files. It sends the one-shot request to the source peer; the directory is then
  \<open>retrieving\<close> until the answer arrives as the signal \<open>newEntries\<close>.
\<close>

definition retrieveEntries :: "downloadManager \<Rightarrow> nat \<Rightarrow> downloadManager" where
  "retrieveEntries s a = s\<lparr> dirRetrieving := (dirRetrieving s)(a := True) \<rparr>"

text \<open>The loop of \<open>scanTheQueueToRetrieveEntries\<close>: the first \<open>DirDownload\<close> of the queue.\<close>

fun firstDirDownload :: "download list \<Rightarrow> download option" where
  "firstDirDownload [] = None"
| "firstDirDownload (FileDownload a e p c # rest) = firstDirDownload rest"
| "firstDirDownload (DirDownload a e p # rest) = Some (DirDownload a e p)"

definition scanTheQueueToRetrieveEntries :: "downloadManager \<Rightarrow> downloadManager" where
  "scanTheQueueToRetrieveEntries s =
     (if retrievingEntries s then s
      else case firstDirDownload (downloads s) of
             None \<Rightarrow> s
           | Some dirDownload \<Rightarrow> (retrieveEntries s (addr dirDownload))\<lparr> retrievingEntries := True \<rparr>)"

text \<open>
  Modelled from the spec: the constructor of \<open>FileDownload\<close> and \<open>FileDownload::start\<close> are
  declared outside the source files. A new file download is QUEUED, or COMPLETE when it is
  restored with \<open>complete = true\<close>, and owns one chunk download per hash its entry
  carries, IDLE with the source peer as only known holder (already complete for a complete
  file). The numeric values of the status enumeration are declared outside the source files
  too; the scheduling loop only compares a status with \<open>0x20\<close>.
\<close>

definition QUEUED :: int where "QUEUED = 1"
definition COMPLETE :: int where "COMPLETE = 4"

definition start :: "downloadManager \<Rightarrow> nat \<Rightarrow> entry \<Rightarrow> hash \<Rightarrow> bool \<Rightarrow> downloadManager" where
  "start s a entry peerSource complete =
     s\<lparr> fileStatus := (fileStatus s)(a := (if complete then COMPLETE else QUEUED)),
        chunks := chunks s @
          map (\<lambda>h. \<lparr> owner = a, chunkHash = h, knownHolders = [peerSource],
                     c_status = (if complete then CHUNK_COMPLETE else IDLE),
                     currentPeer = None, connections = 0 \<rparr>) (e_chunk entry) \<rparr>"

text \<open>
  \<open>addDownload(entry, peerSource, complete, iterator)\<close>. With the queue as a list, the
  iterator is an index; \<open>iterator.insert\<close> puts the new download before that index. The
  parameter is declared \<open>QMutableListIterator<Download*> iterator\<close>, passed by value: the
  callee works on its own copy and the iterator of the caller is not told of the insertion.
\<close>

definition insertAt :: "nat \<Rightarrow> 'a \<Rightarrow> 'a list \<Rightarrow> 'a list" where
  "insertAt i x xs = take i xs @ x # drop i xs"

definition addDownloadAt :: "downloadManager \<Rightarrow> entry \<Rightarrow> hash \<Rightarrow> bool \<Rightarrow> nat \<Rightarrow> downloadManager" where
  "addDownloadAt s entry peerSource complete iterator =
     (if isEntryAlreadyQueued s entry
      then s\<lparr> logged := logged s @
                [(WARN, ''Entry already queued, it will no be added to the queue : %1'')] \<rparr>
      else (case e_type entry of
              Entry_Type_DIR \<Rightarrow>
                scanTheQueueToRetrieveEntries
                  (s\<lparr> downloads := insertAt iterator (DirDownload (nextAddr s) entry peerSource)
                                      (downloads s),
                      dirRetrieving := (dirRetrieving s)(nextAddr s := False),
                      nextAddr := Suc (nextAddr s) \<rparr>)
            | Entry_Type_FILE \<Rightarrow>
                start
                  (s\<lparr> downloads := insertAt iterator
                                      (FileDownload (nextAddr s) entry peerSource complete)
                                      (downloads s),
                      nextAddr := Suc (nextAddr s) \<rparr>)
                  (nextAddr s) entry peerSource complete))"

text \<open>The two public overloads: the iterator is moved to the back of the queue first.\<close>

definition addDownload :: "downloadManager \<Rightarrow> entry \<Rightarrow> hash \<Rightarrow> bool \<Rightarrow> downloadManager" where
  "addDownload s entry peerSource complete =
     addDownloadAt s entry peerSource complete (length (downloads s))"

text \<open>
  \<open>newEntries\<close>, the slot of the signal a \<open>DirDownload\<close> emits with its children; \<open>sender\<close>
  is the address of the emitting object. \<open>findNext\<close> gives the position of the sender in
  the queue, \<open>remove\<close> deletes it there and leaves the iterator on that position; every
  call of \<open>addDownload\<close> in the loop receives a copy of this iterator. With the queue as
  a list every call receives the index \<open>remove\<close> left. The element the iterator of the
  loop designates once the list has changed under it depends on the storage of the list;
  the section on the storage of the queue follows it there, and the order of the children
  is stated on that model only.
\<close>

fun findNext :: "download list \<Rightarrow> nat \<Rightarrow> nat option" where
  "findNext [] a = None"
| "findNext (d # ds) a =
     (if addr d = a then Some 0 else map_option Suc (findNext ds a))"

definition removeAt :: "nat \<Rightarrow> 'a list \<Rightarrow> 'a list" where
  "removeAt i xs = take i xs @ drop (Suc i) xs"

fun newEntriesLoop :: "entry list \<Rightarrow> hash \<Rightarrow> nat \<Rightarrow> downloadManager \<Rightarrow> downloadManager" where
  "newEntriesLoop [] peerSource i s = s"
| "newEntriesLoop (entry # entries) peerSource i s =
     newEntriesLoop entries peerSource i (addDownloadAt s entry peerSource False i)"

definition newEntries :: "downloadManager \<Rightarrow> nat \<Rightarrow> entry list \<Rightarrow> downloadManager" where
  "newEntries s sender entries =
     (let s1 = s\<lparr> retrievingEntries := False \<rparr> in
      case findNext (downloads s1) sender of
        None \<Rightarrow> s1
      | Some i \<Rightarrow>
          (let dirDownload = downloads s1 ! i;
               s2 = s1\<lparr> downloads := removeAt i (downloads s1) \<rparr>;
               s3 = newEntriesLoop entries (getPeerSourceID dirDownload) i s2
           in scanTheQueueToRetrieveEntries s3))"

text \<open>\<open>downloadDeleted\<close>: \<open>removeOne\<close> deletes the first occurrence of the pointer.\<close>

fun removeOne :: "nat \<Rightarrow> download list \<Rightarrow> download list" where
  "removeOne a [] = []"
| "removeOne a (d # ds) = (if addr d = a then ds else d # removeOne a ds)"

definition downloadDeleted :: "downloadManager \<Rightarrow> nat \<Rightarrow> downloadManager" where
  "downloadDeleted s a = s\<lparr> downloads := removeOne a (downloads s) \<rparr>"

section \<open>Download manager: the scheduling loop\<close>

text \<open>
  Modelled from the spec: \<open>FileDownload::getAChunkToDownload\<close> and
  \<open>ChunkDownload::startDownloading\<close> are declared outside the source files. A chunk is
  eligible iff it is IDLE and one of its known holders is not in the pool of peers that are
  downloading a chunk; \<open>getAChunkToDownload\<close> returns the first eligible chunk of the file
  (a chunk is named by its index in \<open>chunks\<close>). \<open>startDownloading\<close> chooses the first free
  holder, reserves it and marks the chunk DOWNLOADING; \<open>canStart\<close> is the answer of the
  environment to whether the transfer could be started at all.
\<close>

definition eligible :: "downloadManager \<Rightarrow> chunkDownload \<Rightarrow> bool" where
  "eligible s c \<longleftrightarrow>
     c_status c = IDLE \<and>
     list_ex (\<lambda>h. h \<notin> set (occupiedPeersDownloadingChunk s)) (knownHolders c)"

definition getAChunkToDownload :: "downloadManager \<Rightarrow> nat \<Rightarrow> nat option" where
  "getAChunkToDownload s a =
     (let i = length (takeWhile (\<lambda>c. \<not> (owner c = a \<and> eligible s c)) (chunks s))
      in if i < length (chunks s) then Some i else None)"

definition getStatus :: "downloadManager \<Rightarrow> nat \<Rightarrow> int" where
  "getStatus s a = fileStatus s a"

definition startDownloading :: "(nat \<Rightarrow> bool) \<Rightarrow> downloadManager \<Rightarrow> nat \<Rightarrow> bool \<times> downloadManager" where
  "startDownloading canStart s i =
     (let c = chunks s ! i in
      case find (\<lambda>h. h \<notin> set (occupiedPeersDownloadingChunk s)) (knownHolders c) of
        None \<Rightarrow> (False, s)
      | Some peer \<Rightarrow>
          if c_status c = IDLE \<and> canStart i
          then (True,
                s\<lparr> chunks := (chunks s)[i := c\<lparr> c_status := DOWNLOADING, currentPeer := Some peer \<rparr>],
                   occupiedPeersDownloadingChunk := peer # occupiedPeersDownloadingChunk s \<rparr>)
          else (False, s))"

text \<open>
  \<open>connect(chunkDownload.data(), SIGNAL(downloadFinished()), this,
  SLOT(chunkDownloadFinished()), Qt::DirectConnection)\<close>: one more connection on the chunk.
\<close>

definition connectDownloadFinished :: "downloadManager \<Rightarrow> nat \<Rightarrow> downloadManager" where
  "connectDownloadFinished s i =
     s\<lparr> chunks := (chunks s)[i := (chunks s ! i)\<lparr> connections := Suc (connections (chunks s ! i)) \<rparr>] \<rparr>"

text \<open>
  The loop of \<open>scanTheQueue\<close>. \<open>QListIterator\<close> walks a copy of the queue, the first
  argument; \<open>numberOfDownloadCopy\<close> is the local variable of that name. A status of
  \<open>0x20\<close> or more starts the timer.
\<close>

fun scanLoop :: "(nat \<Rightarrow> bool) \<Rightarrow> download list \<Rightarrow> int \<Rightarrow> downloadManager \<Rightarrow> downloadManager" where
  "scanLoop canStart [] numberOfDownloadCopy s = s"
| "scanLoop canStart (DirDownload a e p # rest) numberOfDownloadCopy s =
     (if numberOfDownloadCopy < NUMBER_OF_DOWNLOADER s
      then scanLoop canStart rest numberOfDownloadCopy s
      else s)"
| "scanLoop canStart (FileDownload a e p c # rest) numberOfDownloadCopy s =
     (if numberOfDownloadCopy < NUMBER_OF_DOWNLOADER s
      then
        (let chunkDownload = getAChunkToDownload s a;
             s1 = (if getStatus s a \<ge> 0x20
                   then s\<lparr> timer := (timer s)\<lparr> active := True \<rparr> \<rparr> else s)
         in case chunkDownload of
              None \<Rightarrow> scanLoop canStart rest numberOfDownloadCopy s1
            | Some i \<Rightarrow>
                (case startDownloading canStart (connectDownloadFinished s1 i) i of
                   (True, s2) \<Rightarrow>
                     (let s3 = s2\<lparr> numberOfDownload := numberOfDownload s2 + 1,
                                   increments := Suc (increments s2) \<rparr>
                      in scanLoop canStart rest (numberOfDownload s3) s3)
                 | (False, s2) \<Rightarrow> scanLoop canStart rest numberOfDownloadCopy s2))
      else s)"

definition scanTheQueue :: "(nat \<Rightarrow> bool) \<Rightarrow> downloadManager \<Rightarrow> downloadManager" where
  "scanTheQueue canStart s = scanLoop canStart (downloads s) (numberOfDownload s) s"

text \<open>
  \<open>chunkDownloadFinished\<close>; \<open>sender\<close> is the chunk that emitted \<open>downloadFinished\<close>.
  The \<open>disconnect\<close> removes every connection from the sender to this slot.
\<close>

definition chunkDownloadFinished :: "downloadManager \<Rightarrow> nat \<Rightarrow> downloadManager" where
  "chunkDownloadFinished s sender =
     s\<lparr> chunks := (chunks s)[sender := (chunks s ! sender)\<lparr> connections := 0 \<rparr>],
        numberOfDownload := numberOfDownload s - 1,
        decrements := Suc (decrements s) \<rparr>"

definition peerNoLongerDownloadingChunk :: "(nat \<Rightarrow> bool) \<Rightarrow> downloadManager \<Rightarrow> hash \<Rightarrow> downloadManager" where
  "peerNoLongerDownloadingChunk canStart s peer = scanTheQueue canStart s"

text \<open>
  Modelled from the spec: the end of a chunk transfer (component 4.B, steps 5 and 6), which
  is declared outside the source files. A chunk that is DOWNLOADING becomes COMPLETE or
  FAILED, emits \<open>downloadFinished\<close> and releases its peer from the pool, which fires
  \<open>newFreePeer\<close>, in this order. Qt runs a slot once for a signal when the first run
  disconnects the remaining connections of that signal to it, and not at all when there is
  no connection.
\<close>

definition emitDownloadFinished :: "downloadManager \<Rightarrow> nat \<Rightarrow> downloadManager" where
  "emitDownloadFinished s i =
     (if 0 < connections (chunks s ! i) then chunkDownloadFinished s i else s)"

definition transferEnded :: "(nat \<Rightarrow> bool) \<Rightarrow> downloadManager \<Rightarrow> nat \<Rightarrow> bool \<Rightarrow> downloadManager" where
  "transferEnded canStart s i ok =
     (if i < length (chunks s) \<and> c_status (chunks s ! i) = DOWNLOADING
      then
        (let c = chunks s ! i;
             s1 = s\<lparr> chunks := (chunks s)[i := c\<lparr> c_status := (if ok then CHUNK_COMPLETE else FAILED),
                                                   currentPeer := None \<rparr>] \<rparr>;
             s2 = emitDownloadFinished s1 i
         in case currentPeer c of
              None \<Rightarrow> s2
            | Some peer \<Rightarrow>
                peerNoLongerDownloadingChunk canStart
                  (s2\<lparr> occupiedPeersDownloadingChunk := remove1 peer (occupiedPeersDownloadingChunk s2) \<rparr>)
                  peer)
      else s)"

section \<open>Download manager: persistence\<close>

text \<open>
  Modelled from the spec: \<open>Download::populateEntry\<close> and the three operations of
  \<open>Common::PersistentData\<close> are declared outside the source files. \<open>populateEntry\<close> fills a
  record entry with the entry, the identifier of the source peer and the complete flag;
  \<open>getValue\<close> raises \<open>UnknownValueException\<close> for a missing value and another exception
  for a value that cannot be read; \<open>setValue\<close> replaces the value or raises
  \<open>PersistentDataIOException\<close>; \<open>rmValue\<close> removes it.
\<close>

definition populateEntry :: "download \<Rightarrow> queue_entry" where
  "populateEntry d =
     \<lparr> qe_entry = getEntry d, qe_peer_id = getPeerSourceID d, qe_complete = isComplete d \<rparr>"

definition getValue :: "downloadManager \<Rightarrow> exn + queue" where
  "getValue s =
     (case fileQueue s of
        None \<Rightarrow> Inl UnknownValueException
      | Some Unreadable \<Rightarrow> Inl OtherException
      | Some (Saved q) \<Rightarrow> Inr q)"

definition setValue :: "downloadManager \<Rightarrow> queue \<Rightarrow> exn + downloadManager" where
  "setValue s q =
     (if storeWritable s then Inr (s\<lparr> fileQueue := Some (Saved q) \<rparr>)
      else Inl PersistentDataIOException)"

definition rmValue :: "downloadManager \<Rightarrow> downloadManager" where
  "rmValue s = s\<lparr> fileQueue := None \<rparr>"

text \<open>
  \<open>saveQueueToFile\<close>. \<open>FILE_QUEUE_VERSION\<close> is an \<open>int\<close> constant declared outside the
  source files, a parameter here; \<open>set_version\<close> stores its 32 bits.
\<close>

definition saveQueueToFile :: "32 word \<Rightarrow> downloadManager \<Rightarrow> downloadManager" where
  "saveQueueToFile FILE_QUEUE_VERSION s =
     (let savedQueue = \<lparr> version = FILE_QUEUE_VERSION, q_entry = map populateEntry (downloads s) \<rparr>
      in case setValue s savedQueue of
           Inr s' \<Rightarrow> s'
         | Inl err \<Rightarrow> s\<lparr> logged := logged s @ [(ERRO, ''PersistentDataIOException'')] \<rparr>)"

text \<open>
  \<open>loadQueueFromFile\<close>: the \<open>try\<close> block, whose result is the exception it raises or the
  state it reaches, and the function with its two handlers. The result of the function is
  \<open>Inl\<close> for an exception that leaves it.
\<close>

fun replayLoop :: "queue_entry list \<Rightarrow> downloadManager \<Rightarrow> downloadManager" where
  "replayLoop [] s = s"
| "replayLoop (entry # rest) s =
     replayLoop rest (addDownload s (qe_entry entry) (qe_peer_id entry) (qe_complete entry))"

definition loadQueueTry :: "32 word \<Rightarrow> downloadManager \<Rightarrow> exn + downloadManager" where
  "loadQueueTry FILE_QUEUE_VERSION s =
     (case getValue s of
        Inl e \<Rightarrow> Inl e
      | Inr savedQueue \<Rightarrow>
          if sint (version savedQueue) \<noteq> sint FILE_QUEUE_VERSION
          then Inr (rmValue (s\<lparr> logged := logged s @
                 [(ERRO, ''The version (%1) of the queue file %2 doesn't match the current version (%3)'')] \<rparr>))
          else Inr (replayLoop (q_entry savedQueue) s))"

definition loadQueueFromFile :: "32 word \<Rightarrow> downloadManager \<Rightarrow> exn + downloadManager" where
  "loadQueueFromFile FILE_QUEUE_VERSION s =
     (case loadQueueTry FILE_QUEUE_VERSION s of
        Inr s' \<Rightarrow> Inr s'
      | Inl UnknownValueException \<Rightarrow>
          Inr (s\<lparr> logged := logged s @
                 [(WARN, ''The download queue file cache cannot be retrived (the file doesn't exist) : %1'')] \<rparr>)
      | Inl e \<Rightarrow>
          Inr (s\<lparr> logged := logged s @
                 [(WARN, ''The download queue file cache cannot be retrived (Unkown exception) : %1'')] \<rparr>))"

definition fileCacheLoaded :: "32 word \<Rightarrow> downloadManager \<Rightarrow> downloadManager" where
  "fileCacheLoaded FILE_QUEUE_VERSION s =
     (case loadQueueFromFile FILE_QUEUE_VERSION s of Inr s' \<Rightarrow> s' | Inl e \<Rightarrow> s)"

section \<open>Download manager: executions\<close>

text \<open>
  What can happen to a manager: the calls of its public operations and the signals that
  reach its slots (\<open>newFreePeer\<close> of the pool of downloading peers reaches
  \<open>peerNoLongerDownloadingChunk\<close>, the timeout of the timer reaches \<open>scanTheQueue\<close>). Modelled from the spec are the events of the objects declared outside
  the source files: a directory download answers only while it is retrieving, a download
  that emits \<open>deleted\<close> is destroyed, which cancels its request for entries and the
  transfers of its chunks (each ends as a failed transfer does), a hash
  received for a queued file creates an IDLE chunk whose only holder is the source peer, a
  peer may be found to hold a chunk, a FAILED chunk becomes IDLE again after its cool-down,
  and a file download may change its status.
\<close>

datatype event =
    AddDownload entry hash
  | NewEntries nat "entry list"
  | DownloadDeleted nat "nat \<Rightarrow> bool"
  | TimerTimeout "nat \<Rightarrow> bool"
  | NewFreePeer hash "nat \<Rightarrow> bool"
  | TransferEnded nat bool "nat \<Rightarrow> bool"
  | CoolDownOver nat
  | HashReceived nat hash
  | HolderFound nat hash
  | StatusChanged nat int
  | FileCacheLoaded
  | SaveQueueToFile
  | StoreWritable bool

definition hashReceived :: "downloadManager \<Rightarrow> nat \<Rightarrow> hash \<Rightarrow> downloadManager" where
  "hashReceived s a h =
     (case find (\<lambda>d. addr d = a) (downloads s) of
        Some (FileDownload a' e p c) \<Rightarrow>
          s\<lparr> chunks := chunks s @
               [\<lparr> owner = a, chunkHash = h, knownHolders = [p], c_status = IDLE,
                  currentPeer = None, connections = 0 \<rparr>] \<rparr>
      | _ \<Rightarrow> s)"

definition holderFound :: "downloadManager \<Rightarrow> nat \<Rightarrow> hash \<Rightarrow> downloadManager" where
  "holderFound s i peer =
     (if i < length (chunks s)
      then s\<lparr> chunks := (chunks s)[i := (chunks s ! i)\<lparr> knownHolders := knownHolders (chunks s ! i) @ [peer] \<rparr>] \<rparr>
      else s)"

definition coolDownOver :: "downloadManager \<Rightarrow> nat \<Rightarrow> downloadManager" where
  "coolDownOver s i =
     (if i < length (chunks s) \<and> c_status (chunks s ! i) = FAILED
      then s\<lparr> chunks := (chunks s)[i := (chunks s ! i)\<lparr> c_status := IDLE \<rparr>] \<rparr>
      else s)"

fun cancelLoop :: "(nat \<Rightarrow> bool) \<Rightarrow> nat \<Rightarrow> nat list \<Rightarrow> downloadManager \<Rightarrow> downloadManager" where
  "cancelLoop canStart a [] s = s"
| "cancelLoop canStart a (i # rest) s =
     cancelLoop canStart a rest
       (if i < length (chunks s) \<and> owner (chunks s ! i) = a
        then transferEnded canStart s i False else s)"

definition destroyed :: "(nat \<Rightarrow> bool) \<Rightarrow> downloadManager \<Rightarrow> nat \<Rightarrow> downloadManager" where
  "destroyed canStart s a =
     cancelLoop canStart a [0..<length (chunks s)]
       (s\<lparr> dirRetrieving := (dirRetrieving s)(a := False) \<rparr>)"

fun step :: "32 word \<Rightarrow> downloadManager \<Rightarrow> event \<Rightarrow> downloadManager" where
  "step v s (AddDownload entry peerSource) = addDownload s entry peerSource False"
| "step v s (NewEntries a entries) =
     (if dirRetrieving s a
      then newEntries (s\<lparr> dirRetrieving := (dirRetrieving s)(a := False) \<rparr>) a entries
      else s)"
| "step v s (DownloadDeleted a canStart) = destroyed canStart (downloadDeleted s a) a"
| "step v s (TimerTimeout canStart) =
     (if active (timer s)
      then scanTheQueue canStart (s\<lparr> timer := (timer s)\<lparr> active := False \<rparr> \<rparr>)
      else s)"
| "step v s (NewFreePeer peer canStart) = peerNoLongerDownloadingChunk canStart s peer"
| "step v s (TransferEnded i ok canStart) = transferEnded canStart s i ok"
| "step v s (CoolDownOver i) = coolDownOver s i"
| "step v s (HashReceived a h) = hashReceived s a h"
| "step v s (HolderFound i peer) = holderFound s i peer"
| "step v s (StatusChanged a st) = s\<lparr> fileStatus := (fileStatus s)(a := st) \<rparr>"
| "step v s FileCacheLoaded = fileCacheLoaded v s"
| "step v s SaveQueueToFile = saveQueueToFile v s"
| "step v s (StoreWritable b) = s\<lparr> storeWritable := b \<rparr>"

definition run :: "32 word \<Rightarrow> downloadManager \<Rightarrow> event list \<Rightarrow> downloadManager" where
  "run v s events = foldl (step v) s events"

section \<open>Download manager: notions used in the statements\<close>

text \<open>The four fields that \<open>isEntryAlreadyQueued\<close> compares, and these keys along the queue.\<close>

definition entryKey :: "entry \<Rightarrow> entry_type \<times> string \<times> string \<times> 64 word" where
  "entryKey e = (e_type e, e_path e, e_name e, e_size e)"

definition queueKeys :: "downloadManager \<Rightarrow> (entry_type \<times> string \<times> string \<times> 64 word) list" where
  "queueKeys s = map (\<lambda>d. entryKey (getEntry d)) (downloads s)"

text \<open>The (entry, peer source, complete) triples of the queue, in order.\<close>

definition triples :: "downloadManager \<Rightarrow> (entry \<times> hash \<times> bool) list" where
  "triples s = map (\<lambda>d. (getEntry d, getPeerSourceID d, isComplete d)) (downloads s)"


fun isDirDownload :: "download \<Rightarrow> bool" where
  "isDirDownload (DirDownload a e p) = True"
| "isDirDownload (FileDownload a e p c) = False"

text \<open>Entries and a manager used in the examples: two downloaders, an empty store.\<close>

definition exampleEntry :: "entry_type \<Rightarrow> string \<Rightarrow> entry" where
  "exampleEntry t n =
     \<lparr> e_type = t, e_path = ''/'', e_name = n, e_size = 4096, e_chunk = [], e_is_empty = False \<rparr>"

definition exampleManager :: downloadManager where
  "exampleManager = DownloadManager 2 1000 None True"

text \<open>A file download holds a FILE entry and a directory download a DIR entry.\<close>

fun kindOK :: "download \<Rightarrow> bool" where
  "kindOK (FileDownload a e p c) \<longleftrightarrow> e_type e = Entry_Type_FILE"
| "kindOK (DirDownload a e p) \<longleftrightarrow> e_type e = Entry_Type_DIR"

text \<open>A saved record with a complete file and a file that is not complete.\<close>

definition exampleRecord :: "32 word \<Rightarrow> queue" where
  "exampleRecord ver =
     \<lparr> version = ver,
       q_entry = [\<lparr> qe_entry = exampleEntry Entry_Type_FILE ''a'', qe_peer_id = ''P'', qe_complete = True \<rparr>,
                  \<lparr> qe_entry = exampleEntry Entry_Type_FILE ''b'', qe_peer_id = ''Q'', qe_complete = False \<rparr>] \<rparr>"

text \<open>
  At most one directory download is retrieving; while one is, the flag of the manager is
  set and the directory is in the queue.
\<close>

definition retrievingOK :: "downloadManager \<Rightarrow> bool" where
  "retrievingOK s \<longleftrightarrow>
     (\<forall>a b. dirRetrieving s a \<longrightarrow> dirRetrieving s b \<longrightarrow> a = b) \<and>
     (\<forall>a. dirRetrieving s a \<longrightarrow> retrievingEntries s \<and> a \<in> addr ` set (downloads s))"

text \<open>A manager whose queue holds a file and two directories, the first of them retrieving.\<close>

definition exampleTwoDirs :: downloadManager where
  "exampleTwoDirs =
     run 1 (DownloadManager 2 1000 None True)
       [AddDownload (exampleEntry Entry_Type_FILE ''a'') ''P'',
        AddDownload (exampleEntry Entry_Type_DIR ''d'') ''P'',
        AddDownload (exampleEntry Entry_Type_DIR ''d2'') ''P'']"




text \<open>The interval and the single-shot mode of the timer.\<close>

definition timerSetting :: "downloadManager \<Rightarrow> int \<times> bool" where
  "timerSetting s = (interval (timer s), singleShot (timer s))"

text \<open>
  A manager with two queued files: the first reports the status \<open>0x21\<close> and has no chunk,
  the second has one chunk to download.
\<close>

definition exampleSoftError :: downloadManager where
  "exampleSoftError =
     run 1 (DownloadManager 2 1000 None True)
       [AddDownload (exampleEntry Entry_Type_FILE ''a'') ''P'',
        AddDownload (exampleEntry Entry_Type_FILE ''b'') ''Q'',
        HashReceived 1 ''h'',
        StatusChanged 0 0x21]"


section \<open>The storage of the queue and the iterator passed by value\<close>

text \<open>
  The queue is a \<open>QList<Download*>\<close>. Qt keeps the pointers of a list in one array of
  \<open>alloc\<close> slots, of which the list occupies the slots \<open>begin\<close> to \<open>end - 1\<close>
  (\<open>QListData::Data\<close>): the element of index \<open>i\<close> is in the slot \<open>begin + i\<close>. A
  \<open>QMutableListIterator\<close> holds the address of a slot, here the number of the slot; it is
  not told when the list changes through another iterator. \<open>holds d n\<close>: the storage \<open>d\<close>
  is that of a list of \<open>n\<close> elements.
\<close>

record qlistData =
  alloc :: nat
  q_begin :: nat
  q_end :: nat

definition holds :: "qlistData \<Rightarrow> nat \<Rightarrow> bool" where
  "holds d n \<longleftrightarrow> q_end d = q_begin d + n \<and> q_end d \<le> alloc d"

text \<open>
  \<open>QListData::remove(i)\<close> closes the gap from the shorter side: the elements before \<open>i\<close>
  move one slot up and \<open>begin\<close> grows, or the elements after \<open>i\<close> move one slot down and
  \<open>end\<close> shrinks. \<open>QListData::erase\<close> returns the slot that has the index \<open>i\<close> afterwards.
\<close>

definition QListData_remove :: "qlistData \<Rightarrow> nat \<Rightarrow> qlistData" where
  "QListData_remove d i =
     (if i < (q_end d - q_begin d) - i
      then d\<lparr> q_begin := q_begin d + 1 \<rparr>
      else d\<lparr> q_end := q_end d - 1 \<rparr>)"

definition QListData_erase :: "qlistData \<Rightarrow> nat \<Rightarrow> qlistData \<times> nat" where
  "QListData_erase d xi =
     (let i = xi - q_begin d;
          d' = QListData_remove d i
      in (d', q_begin d' + i))"

text \<open>
  \<open>QListData::insert(i)\<close> makes room before the index \<open>i\<close> and returns the new storage and
  the slot of the new element. At the front (\<open>i <= 0\<close>) it is \<open>prepend\<close>, at the back
  (\<open>i >= size\<close>) it is \<open>append\<close>; in between the elements before \<open>i\<close> move one slot down
  (leftward) or the elements from \<open>i\<close> on move one slot up. The result \<open>None\<close> stands for
  the paths on which Qt reallocates the array or moves the whole list inside it (no free
  slot at the front for \<open>prepend\<close>, none at the back for \<open>append\<close>, a full array for an
  insertion in between): after them a slot held by an iterator designates nothing defined.
\<close>

definition QListData_prepend :: "qlistData \<Rightarrow> (qlistData \<times> nat) option" where
  "QListData_prepend d =
     (if q_begin d = 0 then None
      else Some (d\<lparr> q_begin := q_begin d - 1 \<rparr>, q_begin d - 1))"

definition QListData_append :: "qlistData \<Rightarrow> (qlistData \<times> nat) option" where
  "QListData_append d =
     (if q_end d = alloc d then None
      else Some (d\<lparr> q_end := q_end d + 1 \<rparr>, q_end d))"

definition QListData_insert :: "qlistData \<Rightarrow> int \<Rightarrow> (qlistData \<times> nat) option" where
  "QListData_insert d i =
     (let n = int (q_end d) - int (q_begin d) in
      if i \<le> 0 then QListData_prepend d
      else if i \<ge> n then QListData_append d
      else if q_begin d = 0
      then (if q_end d = alloc d then None
            else Some (d\<lparr> q_end := q_end d + 1 \<rparr>, q_begin d + nat i))
      else if (if q_end d = alloc d then True else i < n - i)
      then Some (d\<lparr> q_begin := q_begin d - 1 \<rparr>, q_begin d - 1 + nat i)
      else Some (d\<lparr> q_end := q_end d + 1 \<rparr>, q_begin d + nat i))"

text \<open>
  \<open>addDownload(entry, peerSource, complete, iterator)\<close> on the storage. The parameter is
  declared \<open>QMutableListIterator<Download*> iterator\<close>: the callee receives a copy, which
  holds the slot \<open>it\<close>. An entry already queued returns before the copy is used. Otherwise
  \<open>iterator.insert\<close> is \<open>QList::insert\<close> before the index \<open>it - begin\<close>, and the copy,
  which alone learns the slot of the new element, is dropped at the return. The storage is
  \<open>None\<close> once it was reallocated or moved; an insertion through a slot of a storage that is
  gone has no defined result, and the call gives \<open>None\<close>.
\<close>

definition addDownloadNode ::
  "qlistData option \<Rightarrow> downloadManager \<Rightarrow> entry \<Rightarrow> hash \<Rightarrow> bool \<Rightarrow> nat
     \<Rightarrow> (qlistData option \<times> downloadManager) option" where
  "addDownloadNode d s entry peerSource complete it =
     (if isEntryAlreadyQueued s entry
      then Some (d, addDownloadAt s entry peerSource complete 0)
      else (case d of
              None \<Rightarrow> None
            | Some l \<Rightarrow>
                (let iBefore = int it - int (q_begin l)
                 in Some (map_option fst (QListData_insert l iBefore),
                          addDownloadAt s entry peerSource complete (nat iBefore)))))"

text \<open>
  \<open>newEntries\<close> on the storage. \<open>findNext\<close> leaves the iterator behind the sender,
  \<open>remove\<close> erases the sender and keeps the slot \<open>erase\<close> returns; the loop hands this same
  slot to every call of \<open>addDownload\<close>.
\<close>

fun newEntriesLoopNode ::
  "entry list \<Rightarrow> hash \<Rightarrow> nat \<Rightarrow> qlistData option \<Rightarrow> downloadManager \<Rightarrow> downloadManager option" where
  "newEntriesLoopNode [] peerSource i d s = Some s"
| "newEntriesLoopNode (entry # entries) peerSource i d s =
     (case addDownloadNode d s entry peerSource False i of
        None \<Rightarrow> None
      | Some (d', s') \<Rightarrow> newEntriesLoopNode entries peerSource i d' s')"

definition newEntriesNode ::
  "qlistData \<Rightarrow> downloadManager \<Rightarrow> nat \<Rightarrow> entry list \<Rightarrow> downloadManager option" where
  "newEntriesNode d s sender entries =
     (let s1 = s\<lparr> retrievingEntries := False \<rparr> in
      case findNext (downloads s1) sender of
        None \<Rightarrow> Some s1
      | Some k \<Rightarrow>
          (let dirDownload = downloads s1 ! k;
               (d1, i) = QListData_erase d (q_begin d + k);
               s2 = s1\<lparr> downloads := removeAt k (downloads s1) \<rparr>
           in map_option scanTheQueueToRetrieveEntries
                (newEntriesLoopNode entries (getPeerSourceID dirDownload) i (Some d1) s2)))"

text \<open>
  Examples: the queue of a manager that was given the file \<open>a\<close> and then the directory
  \<open>d\<close>, which has the address 1; the same with the file \<open>b\<close> behind the directory; three
  files a directory answers with; and the names of the entries of a queue, in order.
\<close>

definition exampleFileThenDir :: downloadManager where
  "exampleFileThenDir =
     run 1 exampleManager
       [AddDownload (exampleEntry Entry_Type_FILE ''a'') ''P'',
        AddDownload (exampleEntry Entry_Type_DIR ''d'') ''P'']"

definition exampleFileDirFile :: downloadManager where
  "exampleFileDirFile =
     run 1 exampleManager
       [AddDownload (exampleEntry Entry_Type_FILE ''a'') ''P'',
        AddDownload (exampleEntry Entry_Type_DIR ''d'') ''P'',
        AddDownload (exampleEntry Entry_Type_FILE ''b'') ''P'']"

definition exampleThreeFiles :: "entry list" where
  "exampleThreeFiles =
     [exampleEntry Entry_Type_FILE ''f1'', exampleEntry Entry_Type_FILE ''f2'',
      exampleEntry Entry_Type_FILE ''f3'']"

definition names :: "downloadManager \<Rightarrow> string list" where
  "names s = map (\<lambda>d. e_name (getEntry d)) (downloads s)"

section \<open>File manager cache: directories (Directory.cpp)\<close>

text \<open>
  The cache is a heap of \<open>Directory\<close> and \<open>File\<close> objects that point to each other; an
  object is named by its address. Of a directory the members \<open>parent\<close> (a null pointer is
  \<open>None\<close>), \<open>subDirs\<close> and \<open>files\<close> are kept, and the member \<open>size\<close> it inherits from
  \<open>Entry\<close>, a \<open>qint64\<close>: arithmetic on it wraps around at 64 bits.

  Modelled from the spec: the class \<open>File\<close> is declared outside the source files. A file
  has a size and points to the directory that contains it.
\<close>

record directory =
  parent :: "nat option"
  d_size :: "64 word"
  subDirs :: "nat list"
  files :: "nat list"

record cacheFile =
  f_size :: "64 word"
  f_dir :: nat

record cache =
  dirObjs :: "nat \<Rightarrow> directory"
  fileObjs :: "nat \<Rightarrow> cacheFile"


























section \<open>File manager cache: notions used in the statements\<close>

text \<open>
  \<open>isChain s d ps\<close>: \<open>ps\<close> lists the ancestors of \<open>d\<close>, from its parent up to a directory
  without parent.
\<close>

fun isChain :: "cache \<Rightarrow> nat \<Rightarrow> nat list \<Rightarrow> bool" where
  "isChain s d [] \<longleftrightarrow> parent (dirObjs s d) = None"
| "isChain s d (p # ps) \<longleftrightarrow> parent (dirObjs s d) = Some p \<and> isChain s p ps"



text \<open>
  The cache is a forest. For the directories: the sub-directories a directory lists are the
  directories whose parent it is, no such list has a duplicate, and from every directory
  the parent pointers lead to a directory without parent. For the files: no list of files
  has a duplicate and a listed file points to the directory that lists it.
\<close>

definition dirTree :: "cache \<Rightarrow> bool" where
  "dirTree s \<longleftrightarrow>
     (\<forall>d c. c \<in> set (subDirs (dirObjs s d)) \<longleftrightarrow> parent (dirObjs s c) = Some d) \<and>
     (\<forall>d. distinct (subDirs (dirObjs s d))) \<and>
     (\<forall>d. \<exists>ps. isChain s d ps)"

definition filesListed :: "cache \<Rightarrow> bool" where
  "filesListed s \<longleftrightarrow>
     (\<forall>d. distinct (files (dirObjs s d))) \<and>
     (\<forall>d f. f \<in> set (files (dirObjs s d)) \<longrightarrow> f_dir (fileObjs s f) = d)"

definition forest :: "cache \<Rightarrow> bool" where
  "forest s \<longleftrightarrow> dirTree s \<and> filesListed s"




text \<open>\<open>onChain C n\<close> is \<open>n\<close> on the directories of the list \<open>C\<close> and 0 elsewhere.\<close>

definition onChain :: "nat list \<Rightarrow> 64 word \<Rightarrow> nat \<Rightarrow> 64 word" where
  "onChain C n x = (if x \<in> set C then n else 0)"





section \<open>Lemmas on the list operations\<close>

lemma set_insertAt: "set (insertAt i x xs) = insert x (set xs)"
proof -
  have "set (take i xs) \<union> set (drop i xs) = set xs"
    by (metis append_take_drop_id set_append)
  then show ?thesis by (auto simp: insertAt_def)
qed

lemma map_insertAt: "map f (insertAt i x xs) = insertAt i (f x) (map f xs)"
  by (simp add: insertAt_def take_map drop_map)

lemma distinct_insertAt: "distinct (insertAt i x xs) \<longleftrightarrow> x \<notin> set xs \<and> distinct xs"
proof -
  have "distinct (take i xs @ drop i xs) = distinct xs" by simp
  moreover have "set (take i xs) \<union> set (drop i xs) = set xs"
    by (metis append_take_drop_id set_append)
  ultimately show ?thesis
    unfolding insertAt_def distinct_append distinct.simps by auto
qed

lemma length_insertAt: "length (insertAt i x xs) = Suc (length xs)"
  by (simp add: insertAt_def)

lemma set_removeAt_subset: "set (removeAt i xs) \<subseteq> set xs"
  by (auto simp: removeAt_def dest: in_set_takeD in_set_dropD)

lemma map_removeAt: "map f (removeAt i xs) = removeAt i (map f xs)"
  by (simp add: removeAt_def take_map drop_map)

lemma distinct_removeAt: "distinct xs \<Longrightarrow> distinct (removeAt i xs)"
proof -
  assume d: "distinct xs"
  have "distinct (take i xs @ drop i xs)" using d by simp
  then have disj: "set (take i xs) \<inter> set (drop i xs) = {}"
    by (simp only: distinct_append)
  have "set (drop (Suc i) xs) \<subseteq> set (drop i xs)"
    by (rule set_drop_subset_set_drop) simp
  with disj have "set (take i xs) \<inter> set (drop (Suc i) xs) = {}" by blast
  with d show ?thesis by (simp add: removeAt_def)
qed

lemma set_removeOne_subset: "set (removeOne a ds) \<subseteq> set ds"
  by (induction ds) auto

lemma distinct_map_removeOne: "distinct (map f ds) \<Longrightarrow> distinct (map f (removeOne a ds))"
proof (induction ds)
  case Nil
  then show ?case by simp
next
  case (Cons d ds)
  have "f ` set (removeOne a ds) \<subseteq> f ` set ds"
    using set_removeOne_subset [of a ds] by blast
  with Cons show ?case by auto
qed

subsection \<open>What the operations leave unchanged\<close>

lemma startDownloading_frame:
  "startDownloading f s i = (b, s') \<Longrightarrow>
     downloads s' = downloads s \<and> dirRetrieving s' = dirRetrieving s \<and>
     retrievingEntries s' = retrievingEntries s \<and>
     NUMBER_OF_DOWNLOADER s' = NUMBER_OF_DOWNLOADER s \<and> nextAddr s' = nextAddr s \<and>
     fileStatus s' = fileStatus s \<and> fileQueue s' = fileQueue s \<and>
     storeWritable s' = storeWritable s \<and> logged s' = logged s \<and>
     numberOfDownload s' = numberOfDownload s \<and> increments s' = increments s \<and>
     decrements s' = decrements s \<and> timer s' = timer s"
  by (auto simp: startDownloading_def Let_def split: option.splits if_splits)

lemma connectDownloadFinished_frame:
  "downloads (connectDownloadFinished s i) = downloads s \<and>
   dirRetrieving (connectDownloadFinished s i) = dirRetrieving s \<and>
   retrievingEntries (connectDownloadFinished s i) = retrievingEntries s \<and>
   NUMBER_OF_DOWNLOADER (connectDownloadFinished s i) = NUMBER_OF_DOWNLOADER s \<and>
   nextAddr (connectDownloadFinished s i) = nextAddr s \<and>
   fileStatus (connectDownloadFinished s i) = fileStatus s \<and>
   fileQueue (connectDownloadFinished s i) = fileQueue s \<and>
   storeWritable (connectDownloadFinished s i) = storeWritable s \<and>
   logged (connectDownloadFinished s i) = logged s \<and>
   numberOfDownload (connectDownloadFinished s i) = numberOfDownload s \<and>
   increments (connectDownloadFinished s i) = increments s \<and>
   decrements (connectDownloadFinished s i) = decrements s \<and>
   timer (connectDownloadFinished s i) = timer s \<and>
   occupiedPeersDownloadingChunk (connectDownloadFinished s i) = occupiedPeersDownloadingChunk s"
  by (simp add: connectDownloadFinished_def)

lemma scanLoop_frame:
  "downloads (scanLoop f ds n s) = downloads s \<and>
   dirRetrieving (scanLoop f ds n s) = dirRetrieving s \<and>
   retrievingEntries (scanLoop f ds n s) = retrievingEntries s \<and>
   NUMBER_OF_DOWNLOADER (scanLoop f ds n s) = NUMBER_OF_DOWNLOADER s \<and>
   nextAddr (scanLoop f ds n s) = nextAddr s \<and>
   fileStatus (scanLoop f ds n s) = fileStatus s \<and>
   fileQueue (scanLoop f ds n s) = fileQueue s \<and>
   storeWritable (scanLoop f ds n s) = storeWritable s \<and>
   logged (scanLoop f ds n s) = logged s \<and>
   decrements (scanLoop f ds n s) = decrements s"
proof (induction f ds n s rule: scanLoop.induct)
  case (1 canStart numberOfDownloadCopy s)
  then show ?case by simp
next
  case (2 canStart a e p rest numberOfDownloadCopy s)
  then show ?case by simp
next
  case (3 canStart a e p c rest numberOfDownloadCopy s)
  show ?case
  proof (cases "numberOfDownloadCopy < NUMBER_OF_DOWNLOADER s")
    case False
    then show ?thesis by simp
  next
    case budget: True
    define s1 where "s1 = (if getStatus s a \<ge> 0x20
                   then s\<lparr> timer := (timer s)\<lparr> active := True \<rparr> \<rparr> else s)"
    show ?thesis
    proof (cases "getAChunkToDownload s a")
      case None
      with budget 3(1) [OF budget refl refl None] show ?thesis
        by (simp add: Let_def)
    next
      case (Some i)
      obtain b s2 where st: "startDownloading canStart (connectDownloadFinished s1 i) i = (b, s2)"
        by (cases "startDownloading canStart (connectDownloadFinished s1 i) i") auto
      note fr = startDownloading_frame [OF st] connectDownloadFinished_frame [of s1 i]
      show ?thesis
      proof (cases b)
        case True
        with budget Some st fr 3(2) [OF budget refl s1_def Some st [symmetric, unfolded True] _ refl]
        show ?thesis
          by (simp add: Let_def s1_def split: if_splits)
      next
        case False
        with budget Some st fr 3(3) [OF budget refl s1_def Some st [symmetric, unfolded False]]
        show ?thesis
          by (simp add: Let_def s1_def split: if_splits)
      qed
    qed
  qed
qed

subsection \<open>The queue under the operations\<close>

lemma entryQueuedLoop_iff:
  "entryQueuedLoop ds e \<longleftrightarrow> entryKey e \<in> set (map (\<lambda>d. entryKey (getEntry d)) ds)"
  by (induction ds) (auto simp: entryKey_def)

lemma isEntryAlreadyQueued_iff: "isEntryAlreadyQueued s e \<longleftrightarrow> entryKey e \<in> set (queueKeys s)"
  by (simp add: isEntryAlreadyQueued_def entryQueuedLoop_iff queueKeys_def)

lemma downloads_scanTheQueueToRetrieveEntries:
  "downloads (scanTheQueueToRetrieveEntries s) = downloads s"
  by (simp add: scanTheQueueToRetrieveEntries_def retrieveEntries_def split: option.splits)

lemma downloads_addDownloadAt:
  "downloads (addDownloadAt s e p c i) =
     (if isEntryAlreadyQueued s e then downloads s
      else insertAt i (case e_type e of
                         Entry_Type_DIR \<Rightarrow> DirDownload (nextAddr s) e p
                       | Entry_Type_FILE \<Rightarrow> FileDownload (nextAddr s) e p c) (downloads s))"
  by (simp add: addDownloadAt_def downloads_scanTheQueueToRetrieveEntries start_def
           split: entry_type.splits)

lemma queueKeys_addDownloadAt:
  "queueKeys (addDownloadAt s e p c i) =
     (if isEntryAlreadyQueued s e then queueKeys s else insertAt i (entryKey e) (queueKeys s))"
  by (simp add: queueKeys_def downloads_addDownloadAt map_insertAt split: entry_type.splits)

lemma distinct_addDownloadAt:
  "distinct (queueKeys s) \<Longrightarrow> distinct (queueKeys (addDownloadAt s e p c i))"
  by (simp add: queueKeys_addDownloadAt distinct_insertAt isEntryAlreadyQueued_iff)

lemma distinct_newEntriesLoop:
  "distinct (queueKeys s) \<Longrightarrow> distinct (queueKeys (newEntriesLoop es p i s))"
  by (induction es arbitrary: s) (simp_all add: distinct_addDownloadAt)

lemma distinct_newEntries:
  assumes "distinct (queueKeys s)"
  shows "distinct (queueKeys (newEntries s a es))"
proof (cases "findNext (downloads s) a")
  case None
  with assms show ?thesis by (simp add: newEntries_def queueKeys_def)
next
  case (Some i)
  let ?s2 = "s\<lparr> retrievingEntries := False, downloads := removeAt i (downloads s) \<rparr>"
  have "queueKeys ?s2 = removeAt i (queueKeys s)"
    by (simp add: queueKeys_def map_removeAt)
  with assms have "distinct (queueKeys ?s2)" by (simp add: distinct_removeAt)
  then have "distinct (queueKeys (newEntriesLoop es (getPeerSourceID (downloads s ! i)) i ?s2))"
    by (rule distinct_newEntriesLoop)
  with Some show ?thesis
    by (simp add: newEntries_def Let_def queueKeys_def downloads_scanTheQueueToRetrieveEntries)
qed

lemma distinct_downloadDeleted:
  "distinct (queueKeys s) \<Longrightarrow> distinct (queueKeys (downloadDeleted s a))"
  by (simp add: queueKeys_def downloadDeleted_def distinct_map_removeOne)

lemma downloads_scanTheQueue: "downloads (scanTheQueue f s) = downloads s"
  by (simp add: scanTheQueue_def scanLoop_frame)

lemma downloads_chunkDownloadFinished: "downloads (chunkDownloadFinished s i) = downloads s"
  by (simp add: chunkDownloadFinished_def)

lemma downloads_transferEnded: "downloads (transferEnded f s i ok) = downloads s"
  by (simp add: transferEnded_def Let_def emitDownloadFinished_def peerNoLongerDownloadingChunk_def
        downloads_scanTheQueue downloads_chunkDownloadFinished split: option.splits)

lemma cancelLoop_preserves:
  assumes "\<And>s i. P s \<Longrightarrow> P (transferEnded f s i False)" and "P s"
  shows "P (cancelLoop f a ixs s)"
  using assms(2) by (induction ixs arbitrary: s) (simp_all add: assms(1))

lemma downloads_destroyed: "downloads (destroyed f s a) = downloads s"
proof -
  have "downloads (cancelLoop f a ixs t) = downloads s" if "downloads t = downloads s" for ixs t
    using that by (rule cancelLoop_preserves [rotated]) (simp add: downloads_transferEnded)
  then show ?thesis by (simp add: destroyed_def)
qed

lemma downloads_hashReceived: "downloads (hashReceived s a h) = downloads s"
  by (simp add: hashReceived_def split: option.splits download.splits)

lemma downloads_saveQueueToFile: "downloads (saveQueueToFile v s) = downloads s"
  by (simp add: saveQueueToFile_def setValue_def Let_def)

lemma distinct_replayLoop:
  "distinct (queueKeys s) \<Longrightarrow> distinct (queueKeys (replayLoop es s))"
  by (induction es arbitrary: s) (simp_all add: addDownload_def distinct_addDownloadAt)

lemma loadQueueFromFile_cases:
  "loadQueueFromFile v s =
     (case fileQueue s of
        None \<Rightarrow> Inr (s\<lparr> logged := logged s @
                 [(WARN, ''The download queue file cache cannot be retrived (the file doesn't exist) : %1'')] \<rparr>)
      | Some Unreadable \<Rightarrow> Inr (s\<lparr> logged := logged s @
                 [(WARN, ''The download queue file cache cannot be retrived (Unkown exception) : %1'')] \<rparr>)
      | Some (Saved q) \<Rightarrow>
          if sint (version q) \<noteq> sint v
          then Inr (s\<lparr> logged := logged s @
                 [(ERRO, ''The version (%1) of the queue file %2 doesn't match the current version (%3)'')],
                     fileQueue := None \<rparr>)
          else Inr (replayLoop (q_entry q) s))"
  by (simp add: loadQueueFromFile_def loadQueueTry_def getValue_def rmValue_def
           split: option.splits stored.splits)

lemma distinct_fileCacheLoaded:
  assumes "distinct (queueKeys s)"
  shows "distinct (queueKeys (fileCacheLoaded v s))"
proof (cases "fileQueue s")
  case None
  with assms show ?thesis
    by (simp add: fileCacheLoaded_def loadQueueFromFile_cases queueKeys_def)
next
  case (Some x)
  show ?thesis
  proof (cases x)
    case Unreadable
    with Some assms show ?thesis
      by (simp add: fileCacheLoaded_def loadQueueFromFile_cases queueKeys_def)
  next
    case (Saved q)
    show ?thesis
    proof (cases "sint (version q) \<noteq> sint v")
      case True
      with Saved Some assms show ?thesis
        by (simp add: fileCacheLoaded_def loadQueueFromFile_cases queueKeys_def)
    next
      case False
      with Saved Some have "fileCacheLoaded v s = replayLoop (q_entry q) s"
        by (simp add: fileCacheLoaded_def loadQueueFromFile_cases)
      with assms show ?thesis by (simp add: distinct_replayLoop)
    qed
  qed
qed

lemma distinct_step: "distinct (queueKeys s) \<Longrightarrow> distinct (queueKeys (step v s ev))"
proof (cases ev)
  case (AddDownload e p)
  assume "distinct (queueKeys s)"
  with AddDownload show ?thesis by (simp add: addDownload_def distinct_addDownloadAt)
next
  case (NewEntries a es)
  assume d: "distinct (queueKeys s)"
  then have "distinct (queueKeys (s\<lparr> dirRetrieving := (dirRetrieving s)(a := False) \<rparr>))"
    by (simp add: queueKeys_def)
  then have "distinct (queueKeys (newEntries (s\<lparr> dirRetrieving := (dirRetrieving s)(a := False) \<rparr>) a es))"
    by (rule distinct_newEntries)
  with d NewEntries show ?thesis by simp
next
  case (DownloadDeleted a f)
  assume "distinct (queueKeys s)"
  then have "distinct (queueKeys (downloadDeleted s a))" by (rule distinct_downloadDeleted)
  with DownloadDeleted show ?thesis by (simp add: queueKeys_def downloads_destroyed)
next
  case FileCacheLoaded
  assume "distinct (queueKeys s)"
  with FileCacheLoaded show ?thesis by (simp add: distinct_fileCacheLoaded)
qed (simp_all add: queueKeys_def downloads_scanTheQueue downloads_transferEnded
       downloads_hashReceived downloads_saveQueueToFile peerNoLongerDownloadingChunk_def
       coolDownOver_def holderFound_def)

lemma distinct_run: "distinct (queueKeys s) \<Longrightarrow> distinct (queueKeys (run v s evs))"
  unfolding run_def by (induction evs arbitrary: s) (simp_all add: distinct_step)

section \<open>Persistence of the queue\<close>

lemma kindOK_addDownloadAt:
  "list_all kindOK (downloads s) \<Longrightarrow> list_all kindOK (downloads (addDownloadAt s e p c i))"
  by (auto simp: downloads_addDownloadAt list_all_iff set_insertAt split: entry_type.splits)

lemma kindOK_newEntriesLoop:
  "list_all kindOK (downloads s) \<Longrightarrow> list_all kindOK (downloads (newEntriesLoop es p i s))"
  by (induction es arbitrary: s) (simp_all add: kindOK_addDownloadAt)

lemma kindOK_newEntries:
  assumes "list_all kindOK (downloads s)"
  shows "list_all kindOK (downloads (newEntries s a es))"
proof (cases "findNext (downloads s) a")
  case None
  with assms show ?thesis by (simp add: newEntries_def)
next
  case (Some i)
  let ?s2 = "s\<lparr> retrievingEntries := False, downloads := removeAt i (downloads s) \<rparr>"
  have "list_all kindOK (downloads ?s2)"
    using assms set_removeAt_subset [of i "downloads s"] by (auto simp: list_all_iff)
  then have "list_all kindOK (downloads (newEntriesLoop es (getPeerSourceID (downloads s ! i)) i ?s2))"
    by (rule kindOK_newEntriesLoop)
  with Some show ?thesis
    by (simp add: newEntries_def Let_def downloads_scanTheQueueToRetrieveEntries)
qed

lemma kindOK_replayLoop:
  "list_all kindOK (downloads s) \<Longrightarrow> list_all kindOK (downloads (replayLoop es s))"
  by (induction es arbitrary: s) (simp_all add: addDownload_def kindOK_addDownloadAt)

lemma kindOK_fileCacheLoaded:
  assumes "list_all kindOK (downloads s)"
  shows "list_all kindOK (downloads (fileCacheLoaded v s))"
proof (cases "fileQueue s")
  case None
  with assms show ?thesis
    by (simp add: fileCacheLoaded_def loadQueueFromFile_cases)
next
  case (Some x)
  show ?thesis
  proof (cases x)
    case Unreadable
    with Some assms show ?thesis
      by (simp add: fileCacheLoaded_def loadQueueFromFile_cases)
  next
    case (Saved q)
    show ?thesis
    proof (cases "sint (version q) \<noteq> sint v")
      case True
      with Saved Some assms show ?thesis
        by (simp add: fileCacheLoaded_def loadQueueFromFile_cases)
    next
      case False
      with Saved Some have "fileCacheLoaded v s = replayLoop (q_entry q) s"
        by (simp add: fileCacheLoaded_def loadQueueFromFile_cases)
      with assms show ?thesis by (simp add: kindOK_replayLoop)
    qed
  qed
qed

lemma kindOK_step:
  assumes "list_all kindOK (downloads s)"
  shows "list_all kindOK (downloads (step v s ev))"
proof (cases ev)
  case (AddDownload e p)
  with assms show ?thesis by (simp add: addDownload_def kindOK_addDownloadAt)
next
  case (NewEntries a es)
  from assms have "list_all kindOK (downloads (s\<lparr> dirRetrieving := (dirRetrieving s)(a := False) \<rparr>))"
    by simp
  then have "list_all kindOK
      (downloads (newEntries (s\<lparr> dirRetrieving := (dirRetrieving s)(a := False) \<rparr>) a es))"
    by (rule kindOK_newEntries)
  with assms NewEntries show ?thesis by simp
next
  case (DownloadDeleted a f)
  with assms set_removeOne_subset [of a "downloads s"] show ?thesis
    by (auto simp: downloadDeleted_def list_all_iff downloads_destroyed)
next
  case FileCacheLoaded
  with assms show ?thesis by (simp add: kindOK_fileCacheLoaded)
qed (use assms in \<open>simp_all add: downloads_scanTheQueue downloads_transferEnded
       downloads_hashReceived downloads_saveQueueToFile peerNoLongerDownloadingChunk_def
       coolDownOver_def holderFound_def\<close>)

lemma kindOK_run:
  "list_all kindOK (downloads s) \<Longrightarrow> list_all kindOK (downloads (run v s evs))"
  unfolding run_def by (induction evs arbitrary: s) (simp_all add: kindOK_step)

lemma insertAt_length: "insertAt (length xs) x xs = xs @ [x]"
  by (simp add: insertAt_def)

lemma triples_addDownload:
  "\<not> isEntryAlreadyQueued s e \<Longrightarrow>
     triples (addDownload s e p c) =
       triples s @ [(e, p, case e_type e of Entry_Type_FILE \<Rightarrow> c | Entry_Type_DIR \<Rightarrow> False)]"
  by (simp add: triples_def addDownload_def downloads_addDownloadAt insertAt_length
           split: entry_type.splits)

lemma queueKeys_addDownload:
  "\<not> isEntryAlreadyQueued s e \<Longrightarrow> queueKeys (addDownload s e p c) = queueKeys s @ [entryKey e]"
proof -
  assume nq: "\<not> isEntryAlreadyQueued s e"
  have "length (downloads s) = length (queueKeys s)" by (simp add: queueKeys_def)
  with nq show ?thesis
    by (simp add: addDownload_def queueKeys_addDownloadAt insertAt_length)
qed

lemma complete_kindOK:
  "kindOK d \<Longrightarrow>
     (case e_type (getEntry d) of Entry_Type_FILE \<Rightarrow> isComplete d | Entry_Type_DIR \<Rightarrow> False)
       = isComplete d"
  by (cases d) simp_all

lemma triples_replayLoop:
  "list_all kindOK ds \<Longrightarrow>
   distinct (queueKeys t @ map (\<lambda>d. entryKey (getEntry d)) ds) \<Longrightarrow>
     triples (replayLoop (map populateEntry ds) t) =
       triples t @ map (\<lambda>d. (getEntry d, getPeerSourceID d, isComplete d)) ds"
proof (induction ds arbitrary: t)
  case Nil
  then show ?case by simp
next
  case (Cons d ds)
  let ?t' = "addDownload t (qe_entry (populateEntry d)) (qe_peer_id (populateEntry d))
               (qe_complete (populateEntry d))"
  have e: "qe_entry (populateEntry d) = getEntry d" by (simp add: populateEntry_def)
  from Cons.prems have nq: "\<not> isEntryAlreadyQueued t (qe_entry (populateEntry d))"
    by (simp add: isEntryAlreadyQueued_iff e)
  from Cons.prems have k: "kindOK d" by simp
  have t': "triples ?t' = triples t @ [(getEntry d, getPeerSourceID d, isComplete d)]"
    using triples_addDownload [OF nq] complete_kindOK [OF k] by (simp add: populateEntry_def)
  have keys: "queueKeys ?t' = queueKeys t @ [entryKey (getEntry d)]"
    using queueKeys_addDownload [OF nq] by (simp add: e)
  have "triples (replayLoop (map populateEntry ds) ?t') =
          triples ?t' @ map (\<lambda>d. (getEntry d, getPeerSourceID d, isComplete d)) ds"
  proof (rule Cons.IH)
    from Cons.prems show "list_all kindOK ds" by simp
    from Cons.prems show "distinct (queueKeys ?t' @ map (\<lambda>d. entryKey (getEntry d)) ds)"
      unfolding keys by auto
  qed
  then show ?case by (simp add: t')
qed

section \<open>At most one directory is retrieving\<close>

lemma chunkDownloadFinished_frame:
  "downloads (chunkDownloadFinished s i) = downloads s \<and>
   dirRetrieving (chunkDownloadFinished s i) = dirRetrieving s \<and>
   retrievingEntries (chunkDownloadFinished s i) = retrievingEntries s \<and>
   NUMBER_OF_DOWNLOADER (chunkDownloadFinished s i) = NUMBER_OF_DOWNLOADER s \<and>
   nextAddr (chunkDownloadFinished s i) = nextAddr s \<and>
   fileStatus (chunkDownloadFinished s i) = fileStatus s \<and>
   fileQueue (chunkDownloadFinished s i) = fileQueue s \<and>
   storeWritable (chunkDownloadFinished s i) = storeWritable s \<and>
   logged (chunkDownloadFinished s i) = logged s \<and>
   timer (chunkDownloadFinished s i) = timer s \<and>
   increments (chunkDownloadFinished s i) = increments s \<and>
   occupiedPeersDownloadingChunk (chunkDownloadFinished s i) = occupiedPeersDownloadingChunk s"
  by (simp add: chunkDownloadFinished_def)

lemma transferEnded_frame:
  "downloads (transferEnded f s i ok) = downloads s \<and>
   dirRetrieving (transferEnded f s i ok) = dirRetrieving s \<and>
   retrievingEntries (transferEnded f s i ok) = retrievingEntries s \<and>
   NUMBER_OF_DOWNLOADER (transferEnded f s i ok) = NUMBER_OF_DOWNLOADER s \<and>
   nextAddr (transferEnded f s i ok) = nextAddr s \<and>
   fileStatus (transferEnded f s i ok) = fileStatus s \<and>
   fileQueue (transferEnded f s i ok) = fileQueue s \<and>
   storeWritable (transferEnded f s i ok) = storeWritable s \<and>
   logged (transferEnded f s i ok) = logged s"
  by (simp add: transferEnded_def Let_def emitDownloadFinished_def peerNoLongerDownloadingChunk_def
        scanTheQueue_def scanLoop_frame chunkDownloadFinished_frame split: option.splits)

lemma destroyed_frame:
  "downloads (destroyed f s a) = downloads s \<and>
   dirRetrieving (destroyed f s a) = (dirRetrieving s)(a := False) \<and>
   retrievingEntries (destroyed f s a) = retrievingEntries s \<and>
   NUMBER_OF_DOWNLOADER (destroyed f s a) = NUMBER_OF_DOWNLOADER s \<and>
   nextAddr (destroyed f s a) = nextAddr s \<and>
   fileStatus (destroyed f s a) = fileStatus s \<and>
   fileQueue (destroyed f s a) = fileQueue s \<and>
   storeWritable (destroyed f s a) = storeWritable s \<and>
   logged (destroyed f s a) = logged s"
proof -
  let ?P = "\<lambda>t. downloads t = downloads s \<and>
   dirRetrieving t = (dirRetrieving s)(a := False) \<and>
   retrievingEntries t = retrievingEntries s \<and>
   NUMBER_OF_DOWNLOADER t = NUMBER_OF_DOWNLOADER s \<and>
   nextAddr t = nextAddr s \<and>
   fileStatus t = fileStatus s \<and>
   fileQueue t = fileQueue s \<and>
   storeWritable t = storeWritable s \<and>
   logged t = logged s"
  have "?P (cancelLoop f a ixs t)" if "?P t" for ixs t
    using that by (rule cancelLoop_preserves [where P = ?P, rotated]) (simp add: transferEnded_frame)
  then show ?thesis by (simp add: destroyed_def)
qed

lemma firstDirDownload_find: "firstDirDownload ds = find isDirDownload ds"
  by (induction ds rule: firstDirDownload.induct) simp_all

lemma firstDirDownload_in_set: "firstDirDownload ds = Some d \<Longrightarrow> d \<in> set ds"
  by (induction ds rule: firstDirDownload.induct) auto

lemma retrievingOK_scanTheQueueToRetrieveEntries:
  assumes "retrievingOK s"
  shows "retrievingOK (scanTheQueueToRetrieveEntries s)"
proof (cases "retrievingEntries s")
  case True
  with assms show ?thesis by (simp add: scanTheQueueToRetrieveEntries_def)
next
  case False
  with assms have idle: "\<And>a. \<not> dirRetrieving s a" by (auto simp: retrievingOK_def)
  show ?thesis
  proof (cases "firstDirDownload (downloads s)")
    case None
    with False assms show ?thesis by (simp add: scanTheQueueToRetrieveEntries_def)
  next
    case (Some d)
    then have "addr d \<in> addr ` set (downloads s)"
      by (auto dest: firstDirDownload_in_set)
    with False Some idle show ?thesis
      by (simp add: scanTheQueueToRetrieveEntries_def retrieveEntries_def retrievingOK_def)
  qed
qed

lemma retrievingOK_addDownloadAt:
  assumes "retrievingOK s"
  shows "retrievingOK (addDownloadAt s e p c i)"
proof (cases "isEntryAlreadyQueued s e")
  case True
  with assms show ?thesis by (simp add: addDownloadAt_def retrievingOK_def)
next
  case False
  show ?thesis
  proof (cases "e_type e")
    case Entry_Type_FILE
    with False assms show ?thesis
      by (auto simp: addDownloadAt_def start_def retrievingOK_def set_insertAt)
  next
    case Entry_Type_DIR
    let ?s1 = "s\<lparr> downloads := insertAt i (DirDownload (nextAddr s) e p) (downloads s),
                  dirRetrieving := (dirRetrieving s)(nextAddr s := False),
                  nextAddr := Suc (nextAddr s) \<rparr>"
    from assms have "retrievingOK ?s1"
      by (auto simp: retrievingOK_def set_insertAt)
    then have "retrievingOK (scanTheQueueToRetrieveEntries ?s1)"
      by (rule retrievingOK_scanTheQueueToRetrieveEntries)
    with False Entry_Type_DIR show ?thesis by (simp add: addDownloadAt_def)
  qed
qed

lemma retrievingOK_newEntriesLoop:
  "retrievingOK s \<Longrightarrow> retrievingOK (newEntriesLoop es p i s)"
  by (induction es arbitrary: s) (simp_all add: retrievingOK_addDownloadAt)

lemma retrievingOK_newEntries:
  assumes "\<And>b. \<not> dirRetrieving s b"
  shows "retrievingOK (newEntries s a es)"
proof (cases "findNext (downloads s) a")
  case None
  with assms show ?thesis by (simp add: newEntries_def retrievingOK_def)
next
  case (Some i)
  let ?s2 = "s\<lparr> retrievingEntries := False, downloads := removeAt i (downloads s) \<rparr>"
  from assms have "retrievingOK ?s2" by (simp add: retrievingOK_def)
  then have "retrievingOK (newEntriesLoop es (getPeerSourceID (downloads s ! i)) i ?s2)"
    by (rule retrievingOK_newEntriesLoop)
  then have "retrievingOK (scanTheQueueToRetrieveEntries
               (newEntriesLoop es (getPeerSourceID (downloads s ! i)) i ?s2))"
    by (rule retrievingOK_scanTheQueueToRetrieveEntries)
  with Some show ?thesis by (simp add: newEntries_def Let_def)
qed

lemma addr_removeOne: "b \<noteq> a \<Longrightarrow> b \<in> addr ` set ds \<Longrightarrow> b \<in> addr ` set (removeOne a ds)"
  by (induction ds) auto

lemma retrievingOK_replayLoop:
  "retrievingOK s \<Longrightarrow> retrievingOK (replayLoop es s)"
  by (induction es arbitrary: s) (simp_all add: addDownload_def retrievingOK_addDownloadAt)

lemma retrievingOK_frame:
  "retrievingOK s \<Longrightarrow> downloads s' = downloads s \<Longrightarrow> dirRetrieving s' = dirRetrieving s \<Longrightarrow>
     retrievingEntries s' = retrievingEntries s \<Longrightarrow> retrievingOK s'"
  by (simp add: retrievingOK_def)

lemma retrievingOK_fileCacheLoaded:
  assumes "retrievingOK s"
  shows "retrievingOK (fileCacheLoaded v s)"
proof (cases "fileQueue s")
  case None
  with assms show ?thesis
    by (simp add: fileCacheLoaded_def loadQueueFromFile_cases retrievingOK_def)
next
  case (Some x)
  show ?thesis
  proof (cases x)
    case Unreadable
    with Some assms show ?thesis
      by (simp add: fileCacheLoaded_def loadQueueFromFile_cases retrievingOK_def)
  next
    case (Saved q)
    show ?thesis
    proof (cases "sint (version q) \<noteq> sint v")
      case True
      with Saved Some assms show ?thesis
        by (simp add: fileCacheLoaded_def loadQueueFromFile_cases retrievingOK_def)
    next
      case False
      with Saved Some have "fileCacheLoaded v s = replayLoop (q_entry q) s"
        by (simp add: fileCacheLoaded_def loadQueueFromFile_cases)
      with assms show ?thesis by (simp add: retrievingOK_replayLoop)
    qed
  qed
qed

lemma retrievingOK_step:
  assumes "retrievingOK s"
  shows "retrievingOK (step v s ev)"
proof (cases ev)
  case (AddDownload e p)
  with assms show ?thesis by (simp add: addDownload_def retrievingOK_addDownloadAt)
next
  case (NewEntries a es)
  show ?thesis
  proof (cases "dirRetrieving s a")
    case False
    with NewEntries assms show ?thesis by simp
  next
    case True
    with assms have "\<And>b. \<not> dirRetrieving (s\<lparr> dirRetrieving := (dirRetrieving s)(a := False) \<rparr>) b"
      by (auto simp: retrievingOK_def)
    then have "retrievingOK (newEntries (s\<lparr> dirRetrieving := (dirRetrieving s)(a := False) \<rparr>) a es)"
      by (rule retrievingOK_newEntries)
    with True NewEntries show ?thesis by simp
  qed
next
  case (DownloadDeleted a f)
  from assms have "retrievingOK (destroyed f (downloadDeleted s a) a)"
    by (auto simp: retrievingOK_def destroyed_frame downloadDeleted_def addr_removeOne)
  with DownloadDeleted show ?thesis by simp
next
  case (TimerTimeout f)
  with assms show ?thesis
    by (auto intro!: retrievingOK_frame [OF assms] simp: scanTheQueue_def scanLoop_frame)
next
  case (NewFreePeer peer f)
  with assms show ?thesis
    by (auto intro!: retrievingOK_frame [OF assms]
          simp: peerNoLongerDownloadingChunk_def scanTheQueue_def scanLoop_frame)
next
  case (TransferEnded i ok f)
  with assms show ?thesis
    by (auto intro!: retrievingOK_frame [OF assms] simp: transferEnded_frame)
next
  case (CoolDownOver i)
  with assms show ?thesis
    by (auto intro!: retrievingOK_frame [OF assms] simp: coolDownOver_def)
next
  case (HashReceived a h)
  with assms show ?thesis
    by (auto intro!: retrievingOK_frame [OF assms] simp: hashReceived_def
          split: option.splits download.splits)
next
  case (HolderFound i peer)
  with assms show ?thesis
    by (auto intro!: retrievingOK_frame [OF assms] simp: holderFound_def)
next
  case (StatusChanged a st)
  with assms show ?thesis by (simp add: retrievingOK_def)
next
  case FileCacheLoaded
  with assms show ?thesis by (simp add: retrievingOK_fileCacheLoaded)
next
  case SaveQueueToFile
  with assms show ?thesis
    by (auto intro!: retrievingOK_frame [OF assms] simp: saveQueueToFile_def setValue_def)
next
  case (StoreWritable b)
  with assms show ?thesis by (simp add: retrievingOK_def)
qed

lemma retrievingOK_run: "retrievingOK s \<Longrightarrow> retrievingOK (run v s evs)"
  unfolding run_def by (induction evs arbitrary: s) (simp_all add: retrievingOK_step)

lemma retrievingOK_DownloadManager: "retrievingOK (DownloadManager n r st w)"
  by (simp add: retrievingOK_def DownloadManager_def)

lemma findNext_Some:
  "a \<in> addr ` set ds \<Longrightarrow> \<exists>i. findNext ds a = Some i \<and> i < length ds \<and> addr (ds ! i) = a"
  by (induction ds) auto

section \<open>The counter of downloads\<close>




























section \<open>The queue after a directory is resolved\<close>





section \<open>The scan of the queue, piece by piece\<close>

lemma scanLoop_exhausted:
  "\<not> n < NUMBER_OF_DOWNLOADER s \<Longrightarrow> scanLoop f ds n s = s"
proof (cases ds)
  case Nil
  then show ?thesis by simp
next
  case (Cons d rest)
  assume "\<not> n < NUMBER_OF_DOWNLOADER s"
  with Cons show ?thesis by (cases d) simp_all
qed

lemma scanLoop_append:
  "n = numberOfDownload s \<Longrightarrow>
     scanLoop f (xs @ ys) n s =
       scanLoop f ys (numberOfDownload (scanLoop f xs n s)) (scanLoop f xs n s)"
proof (induction f xs n s rule: scanLoop.induct)
  case (1 canStart numberOfDownloadCopy s)
  then show ?case by simp
next
  case (2 canStart a e p rest numberOfDownloadCopy s)
  then show ?case by (simp add: scanLoop_exhausted)
next
  case (3 canStart a e p c rest numberOfDownloadCopy s)
  show ?case
  proof (cases "numberOfDownloadCopy < NUMBER_OF_DOWNLOADER s")
    case False
    with "3.prems" show ?thesis by (simp add: scanLoop_exhausted)
  next
    case budget: True
    define s1 where "s1 = (if getStatus s a \<ge> 0x20
                   then s\<lparr> timer := (timer s)\<lparr> active := True \<rparr> \<rparr> else s)"
    have n1: "numberOfDownloadCopy = numberOfDownload s1"
      using "3.prems" by (simp add: s1_def)
    show ?thesis
    proof (cases "getAChunkToDownload s a")
      case None
      with budget 3(1) [OF budget refl s1_def None n1] show ?thesis
        by (simp add: Let_def s1_def)
    next
      case (Some i)
      let ?sc = "connectDownloadFinished s1 i"
      obtain b s2 where st: "startDownloading canStart ?sc i = (b, s2)"
        by (cases "startDownloading canStart ?sc i") auto
      show ?thesis
      proof (cases b)
        case True
        with st have st': "startDownloading canStart ?sc i = (True, s2)" by simp
        let ?s3 = "s2\<lparr> numberOfDownload := numberOfDownload s2 + 1,
                        increments := Suc (increments s2) \<rparr>"
        have "scanLoop canStart (rest @ ys) (numberOfDownload ?s3) ?s3 =
                scanLoop canStart ys (numberOfDownload (scanLoop canStart rest (numberOfDownload ?s3) ?s3))
                  (scanLoop canStart rest (numberOfDownload ?s3) ?s3)"
          by (rule 3(2) [OF budget refl s1_def Some st' [symmetric] _ refl refl]) simp
        with budget Some st' show ?thesis
          by (simp add: Let_def s1_def)
      next
        case False
        with st have st': "startDownloading canStart ?sc i = (False, s2)" by simp
        have eq: "numberOfDownloadCopy = numberOfDownload s2"
          using startDownloading_frame [OF st] n1 by (simp add: connectDownloadFinished_frame)
        have "scanLoop canStart (rest @ ys) numberOfDownloadCopy s2 =
                scanLoop canStart ys (numberOfDownload (scanLoop canStart rest numberOfDownloadCopy s2))
                  (scanLoop canStart rest numberOfDownloadCopy s2)"
          by (rule 3(3) [OF budget refl s1_def Some st' [symmetric] _ eq]) simp
        with budget Some st' show ?thesis
          by (simp add: Let_def s1_def)
      qed
    qed
  qed
qed

lemma timer_startDownloading: "startDownloading f s i = (b, s') \<Longrightarrow> timer s' = timer s"
  by (simp add: startDownloading_frame)

lemma timer_scanLoop:
  "interval (timer (scanLoop f ds n s)) = interval (timer s) \<and>
   singleShot (timer (scanLoop f ds n s)) = singleShot (timer s) \<and>
   (active (timer s) \<longrightarrow> active (timer (scanLoop f ds n s)))"
proof (induction f ds n s rule: scanLoop.induct)
  case (1 canStart numberOfDownloadCopy s)
  then show ?case by simp
next
  case (2 canStart a e p rest numberOfDownloadCopy s)
  then show ?case by simp
next
  case (3 canStart a e p c rest numberOfDownloadCopy s)
  show ?case
  proof (cases "numberOfDownloadCopy < NUMBER_OF_DOWNLOADER s")
    case False
    then show ?thesis by simp
  next
    case budget: True
    define s1 where "s1 = (if getStatus s a \<ge> 0x20
                   then s\<lparr> timer := (timer s)\<lparr> active := True \<rparr> \<rparr> else s)"
    have t1: "interval (timer s1) = interval (timer s)" "singleShot (timer s1) = singleShot (timer s)"
      "active (timer s) \<longrightarrow> active (timer s1)"
      by (simp_all add: s1_def)
    show ?thesis
    proof (cases "getAChunkToDownload s a")
      case None
      with budget 3(1) [OF budget refl s1_def None] t1 show ?thesis
        by (simp add: Let_def s1_def)
    next
      case (Some i)
      let ?sc = "connectDownloadFinished s1 i"
      obtain b s2 where st: "startDownloading canStart ?sc i = (b, s2)"
        by (cases "startDownloading canStart ?sc i") auto
      have t2: "timer s2 = timer s1"
        using timer_startDownloading [OF st] by (simp add: connectDownloadFinished_frame)
      show ?thesis
      proof (cases b)
        case True
        with st have st': "startDownloading canStart ?sc i = (True, s2)" by simp
        from budget Some st' t1 t2 3(2) [OF budget refl s1_def Some st' [symmetric] _ refl]
        show ?thesis
          by (simp add: Let_def s1_def)
      next
        case False
        with st have st': "startDownloading canStart ?sc i = (False, s2)" by simp
        from budget Some st' t1 t2 3(3) [OF budget refl s1_def Some st' [symmetric]]
        show ?thesis
          by (simp add: Let_def s1_def)
      qed
    qed
  qed
qed

lemma scanLoop_soft_error:
  assumes "n < NUMBER_OF_DOWNLOADER s" and "0x20 \<le> getStatus s a"
  shows "active (timer (scanLoop f (FileDownload a e p c # rest) n s))"
proof -
  let ?s1 = "s\<lparr> timer := (timer s)\<lparr> active := True \<rparr> \<rparr>"
  have a1: "active (timer ?s1)" by simp
  show ?thesis
  proof (cases "getAChunkToDownload s a")
    case None
    with assms timer_scanLoop [of f rest n ?s1] show ?thesis
      by (simp add: Let_def)
  next
    case (Some i)
    obtain b s2 where st: "startDownloading f (connectDownloadFinished ?s1 i) i = (b, s2)"
      by (cases "startDownloading f (connectDownloadFinished ?s1 i) i") auto
    have t2: "active (timer s2)"
      using timer_startDownloading [OF st] by (simp add: connectDownloadFinished_frame)
    show ?thesis
    proof (cases b)
      case True
      let ?s3 = "s2\<lparr> numberOfDownload := numberOfDownload s2 + 1, increments := Suc (increments s2) \<rparr>"
      from t2 have "active (timer ?s3)" by simp
      with timer_scanLoop [of f rest "numberOfDownload ?s3" ?s3]
      have "active (timer (scanLoop f rest (numberOfDownload ?s3) ?s3))" by blast
      with assms Some st True show ?thesis by (simp add: Let_def)
    next
      case False
      from t2 timer_scanLoop [of f rest n s2]
      have "active (timer (scanLoop f rest n s2))" by blast
      with assms Some st False show ?thesis by (simp add: Let_def)
    qed
  qed
qed

section \<open>Chains of ancestors\<close>

lemma isChain_unique: "isChain s d ps \<Longrightarrow> isChain s d qs \<Longrightarrow> ps = qs"
proof (induction ps arbitrary: d qs)
  case Nil
  then show ?case by (cases qs) simp_all
next
  case (Cons p ps)
  then show ?case by (cases qs) auto
qed

lemma isChain_suffix: "isChain s d (xs @ y # ys) \<Longrightarrow> isChain s y ys"
  by (induction xs arbitrary: d) auto

lemma isChain_first_not_later:
  assumes "isChain s d ps"
  shows "d \<notin> set ps"
proof
  assume "d \<in> set ps"
  then obtain xs ys where ps: "ps = xs @ d # ys" by (auto simp: in_set_conv_decomp)
  with assms have "isChain s d ys" by (auto dest: isChain_suffix)
  with assms have "ps = ys" by (rule isChain_unique)
  with ps show False by simp
qed

lemma isChain_distinct: "isChain s d ps \<Longrightarrow> distinct (d # ps)"
proof (induction ps arbitrary: d)
  case Nil
  then show ?case by simp
next
  case (Cons p ps)
  from Cons.prems have "isChain s p ps" by simp
  then have "distinct (p # ps)" by (rule Cons.IH)
  with isChain_first_not_later [OF Cons.prems] show ?case by simp
qed



section \<open>The recursion to the parent\<close>








section \<open>Sizes along a chain\<close>











lemma forest_chain: "forest s \<Longrightarrow> \<exists>ps. isChain s d ps"
  by (simp add: forest_def dirTree_def)

section \<open>The operations on files keep the sizes right\<close>












section \<open>Stealing the content of a directory\<close>

lemma onChain_add: "onChain C a x + onChain C b x = onChain C (a + b) x"
  by (simp add: onChain_def)





















section \<open>Creating and deleting directories; the files a directory contains\<close>







section \<open>No duplicate in the queue\<close>

lemma count_key_distinct:
  "distinct (map f xs) \<Longrightarrow> k \<in> set (map f xs) \<Longrightarrow> length (filter (\<lambda>x. f x = k) xs) = 1"
proof (induction xs)
  case Nil
  then show ?case by simp
next
  case (Cons x xs)
  show ?case
  proof (cases "f x = k")
    case True
    have "f x \<notin> f ` set xs" using Cons.prems(1) by simp
    then have "\<forall>y \<in> set xs. f y \<noteq> k" unfolding True [symmetric] by (metis image_eqI)
    then have "filter (\<lambda>x. f x = k) xs = []"
      by (simp add: filter_empty_conv)
    with True show ?thesis by simp
  next
    case False
    with Cons show ?thesis by auto
  qed
qed

lemma addDownload_queued:
  "isEntryAlreadyQueued s e \<Longrightarrow>
     addDownload s e p c =
       s\<lparr> logged := logged s @ [(WARN, ''Entry already queued, it will no be added to the queue : %1'')] \<rparr>"
  by (simp add: addDownload_def addDownloadAt_def)

lemma queued_after_addDownload: "isEntryAlreadyQueued (addDownload s e p c) e"
  by (simp add: isEntryAlreadyQueued_iff addDownload_def queueKeys_addDownloadAt set_insertAt)

text \<open>
  Claim C2. In every execution of a manager the keys (type, path, name, size) of the queued
  downloads are pairwise different; \<open>addDownload\<close> of an entry whose key is queued changes
  nothing but the log, which receives one WARN message; and after
  \<open>addDownload(e); addDownload(e)\<close> exactly one queued download has the key of \<open>e\<close>
  (from the empty queue: the queue has exactly one item).
\<close>

theorem C2_no_duplicate_in_queue:
  "distinct (queueKeys (run v (DownloadManager n r st w) evs))
   \<and> (isEntryAlreadyQueued s e \<longrightarrow>
        downloads (addDownload s e p c) = downloads s \<and>
        addDownload s e p c =
          s\<lparr> logged := logged s @
                [(WARN, ''Entry already queued, it will no be added to the queue : %1'')] \<rparr>)
   \<and> (distinct (queueKeys s) \<longrightarrow>
        length (filter (\<lambda>d. entryKey (getEntry d) = entryKey e)
                  (downloads (addDownload (addDownload s e p c) e p' c'))) = 1)
   \<and> length (downloads (addDownload (addDownload (DownloadManager n r st w) e p c) e p' c')) = 1"
proof -
  have init: "queueKeys (DownloadManager n r st w) = []"
    by (simp add: queueKeys_def DownloadManager_def)
  have a: "distinct (queueKeys (run v (DownloadManager n r st w) evs))"
    by (rule distinct_run) (simp add: init)
  have b: "isEntryAlreadyQueued s e \<longrightarrow>
        downloads (addDownload s e p c) = downloads s \<and>
        addDownload s e p c =
          s\<lparr> logged := logged s @
                [(WARN, ''Entry already queued, it will no be added to the queue : %1'')] \<rparr>"
    by (simp add: addDownload_queued)
  have twice: "downloads (addDownload (addDownload t e p c) e p' c') = downloads (addDownload t e p c)" for t
    by (simp add: addDownload_queued [OF queued_after_addDownload])
  have c: "distinct (queueKeys s) \<longrightarrow>
        length (filter (\<lambda>d. entryKey (getEntry d) = entryKey e)
                  (downloads (addDownload (addDownload s e p c) e p' c'))) = 1"
  proof
    assume d: "distinct (queueKeys s)"
    let ?t = "addDownload s e p c"
    have "distinct (queueKeys ?t)"
      using d by (simp add: addDownload_def distinct_addDownloadAt)
    moreover have "entryKey e \<in> set (queueKeys ?t)"
      using queued_after_addDownload [of s e p c] by (simp add: isEntryAlreadyQueued_iff)
    ultimately have "length (filter (\<lambda>d. entryKey (getEntry d) = entryKey e) (downloads ?t)) = 1"
      unfolding queueKeys_def by (rule count_key_distinct)
    then show "length (filter (\<lambda>d. entryKey (getEntry d) = entryKey e)
                  (downloads (addDownload (addDownload s e p c) e p' c'))) = 1"
      by (simp add: twice)
  qed
  have "\<not> isEntryAlreadyQueued (DownloadManager n r st w) e"
    by (simp add: isEntryAlreadyQueued_iff init)
  then have "length (downloads (addDownload (DownloadManager n r st w) e p c)) = 1"
    by (simp add: addDownload_def downloads_addDownloadAt length_insertAt DownloadManager_def)
  then have d: "length (downloads (addDownload (addDownload (DownloadManager n r st w) e p c) e p' c')) = 1"
    by (simp add: twice)
  from a b c d show ?thesis by blast
qed

theorem C2_no_duplicate_in_queue_witness:
  "isEntryAlreadyQueued (addDownload exampleManager (exampleEntry Entry_Type_FILE ''a'') ''P'' False)
      (exampleEntry Entry_Type_FILE ''a'')
   \<and> distinct (queueKeys (addDownload exampleManager (exampleEntry Entry_Type_DIR ''d'') ''P'' False))
   \<and> map (\<lambda>d. e_name (getEntry d))
        (downloads (addDownload (addDownload
           (addDownload exampleManager (exampleEntry Entry_Type_DIR ''d'') ''P'' False)
           (exampleEntry Entry_Type_FILE ''a'') ''P'' False)
           (exampleEntry Entry_Type_FILE ''a'') ''Q'' False)) = [''d'', ''a'']
   \<and> downloads (addDownload
          (addDownload exampleManager (exampleEntry Entry_Type_FILE ''a'') ''P'' False)
          (exampleEntry Entry_Type_FILE ''a'') ''Q'' True)
       = downloads (addDownload exampleManager (exampleEntry Entry_Type_FILE ''a'') ''P'' False)"
  using C2_no_duplicate_in_queue
          [of 1 2 1000 None True "[]"
              "addDownload exampleManager (exampleEntry Entry_Type_FILE ''a'') ''P'' False"
              "exampleEntry Entry_Type_FILE ''a''" "''Q''" True "''P''" False]
  by (simp add: exampleManager_def exampleEntry_def DownloadManager_def addDownload_def
        addDownloadAt_def isEntryAlreadyQueued_def start_def insertAt_def queueKeys_def
        entryKey_def scanTheQueueToRetrieveEntries_def retrieveEntries_def)

section \<open>Resolving a directory\<close>

lemmas resolve_defs = exampleFileThenDir_def exampleFileDirFile_def exampleThreeFiles_def run_def
  exampleManager_def DownloadManager_def exampleEntry_def addDownload_def
  addDownloadAt_def isEntryAlreadyQueued_def start_def insertAt_def removeAt_def
  scanTheQueueToRetrieveEntries_def retrieveEntries_def Let_def names_def
  newEntriesNode_def addDownloadNode_def QListData_erase_def QListData_remove_def
  QListData_insert_def QListData_append_def QListData_prepend_def

text \<open>
  Claim C3 says that the children of a resolved directory take the place of the placeholder
  in the order in which they were received. \<open>newEntries\<close> hands its iterator to
  \<open>addDownload\<close>, which takes it by value, so the iterator of the loop stays on the slot
  \<open>remove\<close> left it on while the list changes under it. The queue holds the file \<open>a\<close> and
  then the directory \<open>d\<close>, whatever the storage \<open>l\<close> of this queue of two elements:
  \<^item> when \<open>d\<close> answers with \<open>f1\<close>, \<open>f2\<close>, the queue becomes \<open>a\<close>, \<open>f2\<close>, \<open>f1\<close>;
  \<^item> when \<open>d\<close> answers with \<open>f1\<close>, \<open>f2\<close>, \<open>f3\<close>, either the third insertion goes
    through a slot of a storage that was reallocated, or the queue becomes \<open>a\<close>, \<open>f3\<close>,
    \<open>f2\<close>, \<open>f1\<close> or \<open>a\<close>, \<open>f2\<close>, \<open>f3\<close>, \<open>f1\<close>: the first child is last.

  With the file \<open>b\<close> behind the directory the order depends on the storage: in a full array
  of four slots with the first slot free the three children arrive in order, in an array of
  eight slots filled from the first slot they do not.
\<close>

theorem C3_newEntries_children_out_of_order:
  assumes "holds l 2"
  shows
    "(\<exists>s'. newEntriesNode l exampleFileThenDir 1
              [exampleEntry Entry_Type_FILE ''f1'', exampleEntry Entry_Type_FILE ''f2''] = Some s'
          \<and> names s' = [''a'', ''f2'', ''f1''])
     \<and> (newEntriesNode l exampleFileThenDir 1 exampleThreeFiles = None
        \<or> (\<exists>s'. newEntriesNode l exampleFileThenDir 1 exampleThreeFiles = Some s'
              \<and> (names s' = [''a'', ''f3'', ''f2'', ''f1'']
                 \<or> names s' = [''a'', ''f2'', ''f3'', ''f1''])))
     \<and> map_option names
          (newEntriesNode \<lparr> alloc = 4, q_begin = 1, q_end = 4 \<rparr> exampleFileDirFile 1 exampleThreeFiles)
        = Some [''a'', ''f1'', ''f2'', ''f3'', ''b'']
     \<and> map_option names
          (newEntriesNode \<lparr> alloc = 8, q_begin = 0, q_end = 3 \<rparr> exampleFileDirFile 1 exampleThreeFiles)
        = Some [''a'', ''f2'', ''f3'', ''f1'', ''b'']"
proof -
  from assms obtain A b where l: "l = \<lparr> alloc = A, q_begin = b, q_end = b + 2 \<rparr>"
    and le: "b + 2 \<le> A"
    by (cases l) (auto simp: holds_def)
  have two: "\<exists>s'. newEntriesNode l exampleFileThenDir 1
              [exampleEntry Entry_Type_FILE ''f1'', exampleEntry Entry_Type_FILE ''f2''] = Some s'
          \<and> names s' = [''a'', ''f2'', ''f1'']"
    unfolding l using le by (simp add: resolve_defs)
  have three: "newEntriesNode l exampleFileThenDir 1 exampleThreeFiles = None
        \<or> (\<exists>s'. newEntriesNode l exampleFileThenDir 1 exampleThreeFiles = Some s'
              \<and> (names s' = [''a'', ''f3'', ''f2'', ''f1'']
                 \<or> names s' = [''a'', ''f2'', ''f3'', ''f1'']))"
  proof (cases b)
    case 0
    show ?thesis unfolding l 0 using le by (simp add: resolve_defs)
  next
    case (Suc b')
    show ?thesis unfolding l Suc using le [unfolded Suc] by (simp add: resolve_defs)
  qed
  have full: "map_option names
          (newEntriesNode \<lparr> alloc = 4, q_begin = 1, q_end = 4 \<rparr> exampleFileDirFile 1 exampleThreeFiles)
        = Some [''a'', ''f1'', ''f2'', ''f3'', ''b'']"
    by (simp add: resolve_defs)
  have free: "map_option names
          (newEntriesNode \<lparr> alloc = 8, q_begin = 0, q_end = 3 \<rparr> exampleFileDirFile 1 exampleThreeFiles)
        = Some [''a'', ''f2'', ''f3'', ''f1'', ''b'']"
    by (simp add: resolve_defs)
  from two three full free show ?thesis by (intro conjI)
qed

theorem C3_newEntries_children_out_of_order_witness:
  "holds \<lparr> alloc = 4, q_begin = 1, q_end = 3 \<rparr> 2
   \<and> names exampleFileThenDir = [''a'', ''d'']
   \<and> (\<exists>s'. newEntriesNode \<lparr> alloc = 4, q_begin = 1, q_end = 3 \<rparr> exampleFileThenDir 1
              [exampleEntry Entry_Type_FILE ''f1'', exampleEntry Entry_Type_FILE ''f2''] = Some s'
          \<and> names s' = [''a'', ''f2'', ''f1''])
   \<and> map_option names
        (newEntriesNode \<lparr> alloc = 4, q_begin = 1, q_end = 3 \<rparr> exampleFileThenDir 1 exampleThreeFiles)
      = Some [''a'', ''f3'', ''f2'', ''f1'']
   \<and> holds \<lparr> alloc = 3, q_begin = 1, q_end = 3 \<rparr> 2
   \<and> map_option names
        (newEntriesNode \<lparr> alloc = 3, q_begin = 1, q_end = 3 \<rparr> exampleFileThenDir 1 exampleThreeFiles)
      = Some [''a'', ''f2'', ''f3'', ''f1'']
   \<and> holds \<lparr> alloc = 2, q_begin = 0, q_end = 2 \<rparr> 2
   \<and> newEntriesNode \<lparr> alloc = 2, q_begin = 0, q_end = 2 \<rparr> exampleFileThenDir 1 exampleThreeFiles
      = None"
proof -
  have h1: "holds \<lparr> alloc = 4, q_begin = 1, q_end = 3 \<rparr> 2" by (simp add: holds_def)
  have h2: "holds \<lparr> alloc = 3, q_begin = 1, q_end = 3 \<rparr> 2" by (simp add: holds_def)
  have h3: "holds \<lparr> alloc = 2, q_begin = 0, q_end = 2 \<rparr> 2" by (simp add: holds_def)
  have n: "names exampleFileThenDir = [''a'', ''d'']" by (simp add: resolve_defs)
  from C3_newEntries_children_out_of_order [OF h1]
  have two: "\<exists>s'. newEntriesNode \<lparr> alloc = 4, q_begin = 1, q_end = 3 \<rparr> exampleFileThenDir 1
              [exampleEntry Entry_Type_FILE ''f1'', exampleEntry Entry_Type_FILE ''f2''] = Some s'
          \<and> names s' = [''a'', ''f2'', ''f1'']"
    by (rule conjunct1)
  have a: "map_option names
        (newEntriesNode \<lparr> alloc = 4, q_begin = 1, q_end = 3 \<rparr> exampleFileThenDir 1 exampleThreeFiles)
      = Some [''a'', ''f3'', ''f2'', ''f1'']"
    by (simp add: resolve_defs)
  have b: "map_option names
        (newEntriesNode \<lparr> alloc = 3, q_begin = 1, q_end = 3 \<rparr> exampleFileThenDir 1 exampleThreeFiles)
      = Some [''a'', ''f2'', ''f3'', ''f1'']"
    by (simp add: resolve_defs)
  have c: "newEntriesNode \<lparr> alloc = 2, q_begin = 0, q_end = 2 \<rparr> exampleFileThenDir 1 exampleThreeFiles
      = None"
    by (simp add: resolve_defs)
  from h1 n two a h2 b h3 c show ?thesis by (intro conjI)
qed

section \<open>Loading the queue\<close>

text \<open>
  Claim C5. \<open>loadQueueFromFile\<close> always returns (no exception leaves it). A record of
  another version is removed from the store and the queue is as before; a missing or
  unreadable record leaves everything but the log as before, and the log receives one WARN
  message; a record of the current version is replayed: \<open>addDownload\<close> at the tail for each
  saved entry, in order, with its peer and its complete flag.
\<close>

theorem C5_loadQueueFromFile:
  "(\<exists>s'. loadQueueFromFile v s = Inr s')
   \<and> (fileQueue s = Some (Saved q) \<and> sint (version q) \<noteq> sint v \<longrightarrow>
        (\<exists>s'. loadQueueFromFile v s = Inr s' \<and> fileQueue s' = None \<and>
              downloads s' = downloads s \<and> nextAddr s' = nextAddr s))
   \<and> (fileQueue s = None \<or> fileQueue s = Some Unreadable \<longrightarrow>
        (\<exists>msg. loadQueueFromFile v s = Inr (s\<lparr> logged := logged s @ [(WARN, msg)] \<rparr>)))
   \<and> (fileQueue s = Some (Saved q) \<and> sint (version q) = sint v \<longrightarrow>
        loadQueueFromFile v s =
          Inr (foldl (\<lambda>s' qe. addDownload s' (qe_entry qe) (qe_peer_id qe) (qe_complete qe)) s
                 (q_entry q)))"
proof -
  have fold: "replayLoop qes t =
      foldl (\<lambda>s' qe. addDownload s' (qe_entry qe) (qe_peer_id qe) (qe_complete qe)) t qes" for qes t
    by (induction qes arbitrary: t) simp_all
  have a: "\<exists>s'. loadQueueFromFile v s = Inr s'"
    by (simp add: loadQueueFromFile_cases split: option.splits stored.splits)
  have b: "fileQueue s = Some (Saved q) \<and> sint (version q) \<noteq> sint v \<longrightarrow>
        (\<exists>s'. loadQueueFromFile v s = Inr s' \<and> fileQueue s' = None \<and>
              downloads s' = downloads s \<and> nextAddr s' = nextAddr s)"
    by (simp add: loadQueueFromFile_cases)
  have c: "fileQueue s = None \<or> fileQueue s = Some Unreadable \<longrightarrow>
        (\<exists>msg. loadQueueFromFile v s = Inr (s\<lparr> logged := logged s @ [(WARN, msg)] \<rparr>))"
    by (auto simp: loadQueueFromFile_cases)
  have d: "fileQueue s = Some (Saved q) \<and> sint (version q) = sint v \<longrightarrow>
        loadQueueFromFile v s =
          Inr (foldl (\<lambda>s' qe. addDownload s' (qe_entry qe) (qe_peer_id qe) (qe_complete qe)) s
                 (q_entry q))"
    by (simp add: loadQueueFromFile_cases fold)
  from a b c d show ?thesis by blast
qed

theorem C5_loadQueueFromFile_witness:
  "loadQueueFromFile 1 (DownloadManager 2 1000 (Some (Saved (exampleRecord 2))) True)
     = Inr ((DownloadManager 2 1000 None True)
             \<lparr> logged := [(ERRO, ''The version (%1) of the queue file %2 doesn't match the current version (%3)'')] \<rparr>)
   \<and> (\<exists>msg. loadQueueFromFile 1 (DownloadManager 2 1000 None True)
          = Inr ((DownloadManager 2 1000 None True)\<lparr> logged := [(WARN, msg)] \<rparr>))
   \<and> (\<exists>msg. loadQueueFromFile 1 (DownloadManager 2 1000 (Some Unreadable) True)
          = Inr ((DownloadManager 2 1000 (Some Unreadable) True)\<lparr> logged := [(WARN, msg)] \<rparr>))
   \<and> (\<exists>s'. loadQueueFromFile 1 (DownloadManager 2 1000 (Some (Saved (exampleRecord 1))) True) = Inr s'
         \<and> triples s' = [(exampleEntry Entry_Type_FILE ''a'', ''P'', True),
                           (exampleEntry Entry_Type_FILE ''b'', ''Q'', False)])"
  using C5_loadQueueFromFile [of 1 "DownloadManager 2 1000 (Some (Saved (exampleRecord 2))) True" "exampleRecord 2"]
        C5_loadQueueFromFile [of 1 "DownloadManager 2 1000 None True" "exampleRecord 2"]
        C5_loadQueueFromFile [of 1 "DownloadManager 2 1000 (Some Unreadable) True" "exampleRecord 2"]
        C5_loadQueueFromFile [of 1 "DownloadManager 2 1000 (Some (Saved (exampleRecord 1))) True" "exampleRecord 1"]
  by (simp add: DownloadManager_def exampleRecord_def exampleEntry_def loadQueueFromFile_cases
        triples_def addDownload_def addDownloadAt_def isEntryAlreadyQueued_def start_def insertAt_def)

section \<open>Saving and loading again\<close>

lemma fileQueue_saveQueueToFile:
  "storeWritable s \<Longrightarrow>
     fileQueue (saveQueueToFile v s) =
       Some (Saved \<lparr> version = v, q_entry = map populateEntry (downloads s) \<rparr>)"
  by (simp add: saveQueueToFile_def setValue_def)

text \<open>
  Claim C4, as stated, fails when the store refuses the write: \<open>saveQueueToFile\<close> catches
  \<open>PersistentDataIOException\<close>, logs it and the store keeps what it held. A manager with
  one queued file saves to a store that is not writable and was empty; a new manager on that
  store loads an empty queue.
\<close>

theorem C4_round_trip_counterexample:
  "triples (addDownload (DownloadManager 2 1000 None False) (exampleEntry Entry_Type_FILE ''a'') ''P'' False)
     = [(exampleEntry Entry_Type_FILE ''a'', ''P'', False)]
   \<and> loadQueueFromFile 1
        (DownloadManager 2 1000
           (fileQueue (saveQueueToFile 1
              (addDownload (DownloadManager 2 1000 None False)
                 (exampleEntry Entry_Type_FILE ''a'') ''P'' False))) True)
     = Inr ((DownloadManager 2 1000 None True)
              \<lparr> logged := [(WARN, ''The download queue file cache cannot be retrived (the file doesn't exist) : %1'')] \<rparr>)
   \<and> triples ((DownloadManager 2 1000 None True)
              \<lparr> logged := [(WARN, ''The download queue file cache cannot be retrived (the file doesn't exist) : %1'')] \<rparr>)
     = []"
  by (simp add: DownloadManager_def exampleEntry_def loadQueueFromFile_cases saveQueueToFile_def
        setValue_def triples_def addDownload_def addDownloadAt_def isEntryAlreadyQueued_def
        start_def insertAt_def)

text \<open>
  Claim C4, amended: for the queue of every execution, when the store accepts the write,
  \<open>saveQueueToFile\<close> followed by \<open>loadQueueFromFile\<close> on a manager with an empty queue
  that reads the same store yields a queue with the same (entry, peer source, complete)
  triples in the same order.
\<close>

theorem C4_round_trip:
  assumes "s = run v (DownloadManager n r st w) evs"
    and "storeWritable s"
    and "downloads t = []"
    and "fileQueue t = fileQueue (saveQueueToFile v s)"
  shows "\<exists>t'. loadQueueFromFile v t = Inr t' \<and> triples t' = triples s"
proof -
  have "distinct (queueKeys s)"
    unfolding assms(1) by (rule distinct_run) (simp add: queueKeys_def DownloadManager_def)
  moreover have "queueKeys t = []" using assms(3) by (simp add: queueKeys_def)
  ultimately have d: "distinct (queueKeys t @ map (\<lambda>d. entryKey (getEntry d)) (downloads s))"
    by (simp add: queueKeys_def)
  have k: "list_all kindOK (downloads s)"
    unfolding assms(1) by (rule kindOK_run) (simp add: DownloadManager_def)
  have "fileQueue t = Some (Saved \<lparr> version = v, q_entry = map populateEntry (downloads s) \<rparr>)"
    using assms(2,4) by (simp add: fileQueue_saveQueueToFile)
  then have "loadQueueFromFile v t = Inr (replayLoop (map populateEntry (downloads s)) t)"
    by (simp add: loadQueueFromFile_cases)
  moreover have "triples (replayLoop (map populateEntry (downloads s)) t) = triples s"
    using triples_replayLoop [OF k d] assms(3) by (simp add: triples_def)
  ultimately show ?thesis by simp
qed

theorem C4_round_trip_witness:
  "storeWritable (run 1 exampleManager
       [AddDownload (exampleEntry Entry_Type_FILE ''a'') ''P'',
        AddDownload (exampleEntry Entry_Type_DIR ''d'') ''Q''])
   \<and> (\<exists>t'. loadQueueFromFile 1
          (DownloadManager 2 1000
            (fileQueue (saveQueueToFile 1 (run 1 exampleManager
               [AddDownload (exampleEntry Entry_Type_FILE ''a'') ''P'',
                AddDownload (exampleEntry Entry_Type_DIR ''d'') ''Q''])))
            True) = Inr t'
        \<and> triples t' = [(exampleEntry Entry_Type_FILE ''a'', ''P'', False),
                          (exampleEntry Entry_Type_DIR ''d'', ''Q'', False)])"
proof -
  let ?s = "run 1 (DownloadManager 2 1000 None True)
       [AddDownload (exampleEntry Entry_Type_FILE ''a'') ''P'',
        AddDownload (exampleEntry Entry_Type_DIR ''d'') ''Q'']"
  let ?t = "DownloadManager 2 1000 (fileQueue (saveQueueToFile 1 ?s)) True"
  have w: "storeWritable ?s"
    by (simp add: run_def DownloadManager_def exampleEntry_def addDownload_def
        addDownloadAt_def isEntryAlreadyQueued_def start_def insertAt_def
        scanTheQueueToRetrieveEntries_def retrieveEntries_def)
  have tr: "triples ?s = [(exampleEntry Entry_Type_FILE ''a'', ''P'', False),
                          (exampleEntry Entry_Type_DIR ''d'', ''Q'', False)]"
    by (simp add: run_def DownloadManager_def exampleEntry_def addDownload_def
        addDownloadAt_def isEntryAlreadyQueued_def start_def insertAt_def triples_def
        scanTheQueueToRetrieveEntries_def retrieveEntries_def)
  have e: "downloads ?t = []" by (simp add: DownloadManager_def)
  have f: "fileQueue ?t = fileQueue (saveQueueToFile 1 ?s)" by (simp add: DownloadManager_def)
  have "\<exists>t'. loadQueueFromFile 1 ?t = Inr t' \<and> triples t' = triples ?s"
    by (rule C4_round_trip [OF refl w e f])
  with w tr show ?thesis
    unfolding exampleManager_def by simp
qed

lemma flag_scanTheQueueToRetrieveEntries:
  "retrievingEntries s \<Longrightarrow> retrievingEntries (scanTheQueueToRetrieveEntries s)"
  by (simp add: scanTheQueueToRetrieveEntries_def)

lemma flag_addDownloadAt:
  "retrievingEntries s \<Longrightarrow> retrievingEntries (addDownloadAt s e p c i)"
  by (simp add: addDownloadAt_def start_def scanTheQueueToRetrieveEntries_def
           split: entry_type.splits)

lemma flag_replayLoop: "retrievingEntries s \<Longrightarrow> retrievingEntries (replayLoop es s)"
  by (induction es arbitrary: s) (simp_all add: addDownload_def flag_addDownloadAt)

lemma flag_fileCacheLoaded:
  "retrievingEntries s \<Longrightarrow> retrievingEntries (fileCacheLoaded v s)"
  by (simp add: fileCacheLoaded_def loadQueueFromFile_cases flag_replayLoop
           split: option.splits stored.splits)

lemma flag_step:
  assumes "retrievingEntries s" and "\<And>a es. ev \<noteq> NewEntries a es"
  shows "retrievingEntries (step v s ev)"
proof (cases ev)
  case (NewEntries a es)
  with assms(2) [of a es] show ?thesis by blast
qed (use assms(1) in \<open>simp_all add: addDownload_def flag_addDownloadAt destroyed_frame
       downloadDeleted_def scanTheQueue_def scanLoop_frame peerNoLongerDownloadingChunk_def
       transferEnded_frame coolDownOver_def hashReceived_def holderFound_def
       flag_fileCacheLoaded saveQueueToFile_def setValue_def
       split: option.splits download.splits\<close>)

text \<open>
  Claim C6. In every execution at most one directory download is retrieving its entries.
  \<open>scanTheQueueToRetrieveEntries\<close> changes nothing when the flag \<open>retrievingEntries\<close> is
  set; otherwise it calls \<open>retrieveEntries\<close> on the first directory download of the queue
  and on no other, and sets the flag (nothing changes when the queue holds no directory).
  No event but \<open>newEntries\<close> clears the flag; and when the directory that is retrieving
  delivers \<open>newEntries\<close>, it is found in the queue, the flag is cleared, the placeholder
  is replaced and \<open>scanTheQueueToRetrieveEntries\<close> runs again.
\<close>

theorem C6_one_directory_retrieving:
  assumes "s = run v (DownloadManager n r st w) evs"
  shows "(\<forall>a b. dirRetrieving s a \<longrightarrow> dirRetrieving s b \<longrightarrow> a = b)
   \<and> (retrievingEntries t \<longrightarrow> scanTheQueueToRetrieveEntries t = t)
   \<and> (\<not> retrievingEntries t \<longrightarrow>
        scanTheQueueToRetrieveEntries t =
          (case find isDirDownload (downloads t) of
             None \<Rightarrow> t
           | Some d \<Rightarrow> t\<lparr> dirRetrieving := (dirRetrieving t)(addr d := True),
                           retrievingEntries := True \<rparr>))
   \<and> (retrievingEntries t \<and> (\<forall>a es. ev \<noteq> NewEntries a es) \<longrightarrow> retrievingEntries (step v t ev))
   \<and> (dirRetrieving s a \<longrightarrow>
        (\<exists>i. findNext (downloads s) a = Some i \<and>
             step v s (NewEntries a es) =
               scanTheQueueToRetrieveEntries
                 (newEntriesLoop es (getPeerSourceID (downloads s ! i)) i
                    (s\<lparr> dirRetrieving := (dirRetrieving s)(a := False),
                        retrievingEntries := False,
                        downloads := removeAt i (downloads s) \<rparr>))))"
proof -
  have ok: "retrievingOK s"
    unfolding assms by (rule retrievingOK_run) (rule retrievingOK_DownloadManager)
  then have one: "\<forall>a b. dirRetrieving s a \<longrightarrow> dirRetrieving s b \<longrightarrow> a = b"
    by (simp add: retrievingOK_def)
  have idle: "retrievingEntries t \<longrightarrow> scanTheQueueToRetrieveEntries t = t"
    by (simp add: scanTheQueueToRetrieveEntries_def)
  have first: "\<not> retrievingEntries t \<longrightarrow>
        scanTheQueueToRetrieveEntries t =
          (case find isDirDownload (downloads t) of
             None \<Rightarrow> t
           | Some d \<Rightarrow> t\<lparr> dirRetrieving := (dirRetrieving t)(addr d := True),
                           retrievingEntries := True \<rparr>)"
    by (simp add: scanTheQueueToRetrieveEntries_def firstDirDownload_find retrieveEntries_def
             split: option.splits)
  have keep: "retrievingEntries t \<and> (\<forall>a es. ev \<noteq> NewEntries a es) \<longrightarrow> retrievingEntries (step v t ev)"
    using flag_step [of t ev v] by blast
  have again: "dirRetrieving s a \<longrightarrow>
        (\<exists>i. findNext (downloads s) a = Some i \<and>
             step v s (NewEntries a es) =
               scanTheQueueToRetrieveEntries
                 (newEntriesLoop es (getPeerSourceID (downloads s ! i)) i
                    (s\<lparr> dirRetrieving := (dirRetrieving s)(a := False),
                        retrievingEntries := False,
                        downloads := removeAt i (downloads s) \<rparr>)))"
  proof
    assume r: "dirRetrieving s a"
    with ok have "a \<in> addr ` set (downloads s)" by (simp add: retrievingOK_def)
    then obtain i where i: "findNext (downloads s) a = Some i"
      using findNext_Some by blast
    with r have "step v s (NewEntries a es) =
               scanTheQueueToRetrieveEntries
                 (newEntriesLoop es (getPeerSourceID (downloads s ! i)) i
                    (s\<lparr> dirRetrieving := (dirRetrieving s)(a := False),
                        retrievingEntries := False,
                        downloads := removeAt i (downloads s) \<rparr>))"
      by (simp add: newEntries_def Let_def)
    with i show "\<exists>i. findNext (downloads s) a = Some i \<and>
             step v s (NewEntries a es) =
               scanTheQueueToRetrieveEntries
                 (newEntriesLoop es (getPeerSourceID (downloads s ! i)) i
                    (s\<lparr> dirRetrieving := (dirRetrieving s)(a := False),
                        retrievingEntries := False,
                        downloads := removeAt i (downloads s) \<rparr>))"
      by blast
  qed
  from one idle first keep again show ?thesis by blast
qed

theorem C6_one_directory_retrieving_witness:
  "dirRetrieving exampleTwoDirs 1
   \<and> \<not> dirRetrieving exampleTwoDirs 2
   \<and> retrievingEntries exampleTwoDirs
   \<and> scanTheQueueToRetrieveEntries exampleTwoDirs = exampleTwoDirs
   \<and> retrievingEntries (step 1 exampleTwoDirs (StatusChanged 0 33))
   \<and> (\<exists>i. findNext (downloads exampleTwoDirs) 1 = Some i)
   \<and> map (\<lambda>d. (addr d, e_name (getEntry d)))
        (downloads (step 1 exampleTwoDirs (NewEntries 1 [exampleEntry Entry_Type_FILE ''f1''])))
       = [(0, ''a''), (3, ''f1''), (2, ''d2'')]
   \<and> dirRetrieving (step 1 exampleTwoDirs (NewEntries 1 [exampleEntry Entry_Type_FILE ''f1''])) 2
   \<and> \<not> retrievingEntries
         ((DownloadManager 2 1000 None True)
            \<lparr> downloads := [DirDownload 0 (exampleEntry Entry_Type_DIR ''d'') ''P''] \<rparr>)
   \<and> dirRetrieving
         (scanTheQueueToRetrieveEntries
            ((DownloadManager 2 1000 None True)
               \<lparr> downloads := [DirDownload 0 (exampleEntry Entry_Type_DIR ''d'') ''P''] \<rparr>)) 0"
proof -
  note defs = exampleTwoDirs_def run_def DownloadManager_def exampleEntry_def addDownload_def
    addDownloadAt_def isEntryAlreadyQueued_def start_def insertAt_def removeAt_def
    newEntries_def scanTheQueueToRetrieveEntries_def retrieveEntries_def Let_def
  note C6 = C6_one_directory_retrieving [OF exampleTwoDirs_def,
              where t = exampleTwoDirs and ev = "StatusChanged 0 33" and a = 1
                and es = "[exampleEntry Entry_Type_FILE ''f1'']"]
  have r1: "dirRetrieving exampleTwoDirs 1" by (simp add: defs)
  have fl: "retrievingEntries exampleTwoDirs" by (simp add: defs)
  have ne: "\<forall>a es. StatusChanged 0 33 \<noteq> NewEntries a es" by simp
  from C6 r1 have r2: "\<not> dirRetrieving exampleTwoDirs 2" by fastforce
  from C6 fl have sc: "scanTheQueueToRetrieveEntries exampleTwoDirs = exampleTwoDirs" by blast
  from C6 fl ne have st: "retrievingEntries (step 1 exampleTwoDirs (StatusChanged 0 33))" by blast
  from C6 r1 have fi: "\<exists>i. findNext (downloads exampleTwoDirs) 1 = Some i" by blast
  have q: "map (\<lambda>d. (addr d, e_name (getEntry d)))
        (downloads (step 1 exampleTwoDirs (NewEntries 1 [exampleEntry Entry_Type_FILE ''f1''])))
       = [(0, ''a''), (3, ''f1''), (2, ''d2'')]"
    by (simp add: defs)
  have r3: "dirRetrieving (step 1 exampleTwoDirs (NewEntries 1 [exampleEntry Entry_Type_FILE ''f1''])) 2"
    by (simp add: defs)
  let ?t = "(DownloadManager 2 1000 None True)
              \<lparr> downloads := [DirDownload 0 (exampleEntry Entry_Type_DIR ''d'') ''P''] \<rparr>"
  note C6' = C6_one_directory_retrieving [OF exampleTwoDirs_def, where t = ?t]
  have nf: "\<not> retrievingEntries ?t" by (simp add: DownloadManager_def)
  with C6' have "scanTheQueueToRetrieveEntries ?t =
          (case find isDirDownload (downloads ?t) of
             None \<Rightarrow> ?t
           | Some d \<Rightarrow> ?t\<lparr> dirRetrieving := (dirRetrieving ?t)(addr d := True),
                            retrievingEntries := True \<rparr>)"
    by blast
  then have r4: "dirRetrieving (scanTheQueueToRetrieveEntries ?t) 0" by simp
  from r1 r2 fl sc st fi q r3 nf r4 show ?thesis by blast
qed

section \<open>The counter in every execution\<close>




section \<open>Soft errors during the scan\<close>

lemma timerSetting_scanTheQueue: "timerSetting (scanTheQueue f s) = timerSetting s"
  by (simp add: timerSetting_def scanTheQueue_def timer_scanLoop)

lemma timerSetting_addDownloadAt: "timerSetting (addDownloadAt s e p c i) = timerSetting s"
  by (simp add: timerSetting_def addDownloadAt_def start_def scanTheQueueToRetrieveEntries_def
        retrieveEntries_def split: entry_type.splits option.splits)

lemma timerSetting_newEntriesLoop: "timerSetting (newEntriesLoop es p i s) = timerSetting s"
  by (induction es arbitrary: s) (simp_all add: timerSetting_addDownloadAt)

lemma timerSetting_scanTheQueueToRetrieveEntries:
  "timerSetting (scanTheQueueToRetrieveEntries s) = timerSetting s"
  by (simp add: timerSetting_def scanTheQueueToRetrieveEntries_def
        retrieveEntries_def split: option.splits)

lemma timerSetting_newEntries: "timerSetting (newEntries s a es) = timerSetting s"
proof (cases "findNext (downloads s) a")
  case None
  then show ?thesis by (simp add: newEntries_def timerSetting_def)
next
  case (Some i)
  then show ?thesis
    by (simp add: newEntries_def Let_def timerSetting_scanTheQueueToRetrieveEntries
          timerSetting_newEntriesLoop) (simp add: timerSetting_def)
qed

lemma timerSetting_replayLoop: "timerSetting (replayLoop es s) = timerSetting s"
  by (induction es arbitrary: s) (simp_all add: addDownload_def timerSetting_addDownloadAt)

lemma timerSetting_fileCacheLoaded: "timerSetting (fileCacheLoaded v s) = timerSetting s"
proof -
  have a: "timerSetting (s\<lparr> logged := l \<rparr>) = timerSetting s" for l
    by (simp add: timerSetting_def)
  have b: "timerSetting (s\<lparr> logged := l, fileQueue := q \<rparr>) = timerSetting s" for l q
    by (simp add: timerSetting_def)
  show ?thesis
    by (simp add: fileCacheLoaded_def loadQueueFromFile_cases a b timerSetting_replayLoop
          split: option.splits stored.splits)
qed

lemma timerSetting_transferEnded: "timerSetting (transferEnded f s i ok) = timerSetting s"
proof -
  have a: "timerSetting (t\<lparr> occupiedPeersDownloadingChunk := l \<rparr>) = timerSetting t" for l t
    by (simp add: timerSetting_def)
  have b: "timerSetting (chunkDownloadFinished t j) = timerSetting t" for t j
    by (simp add: timerSetting_def chunkDownloadFinished_def)
  have c: "timerSetting (t\<lparr> chunks := l \<rparr>) = timerSetting t" for l t
    by (simp add: timerSetting_def)
  show ?thesis
    by (simp add: transferEnded_def Let_def emitDownloadFinished_def a b c
          peerNoLongerDownloadingChunk_def timerSetting_scanTheQueue split: option.splits)
qed

lemma timerSetting_destroyed: "timerSetting (destroyed f s a) = timerSetting s"
proof -
  have "timerSetting (cancelLoop f a ixs t) = timerSetting s" if "timerSetting t = timerSetting s" for ixs t
    using that
    by (rule cancelLoop_preserves [where P = "\<lambda>t. timerSetting t = timerSetting s", rotated])
       (simp add: timerSetting_transferEnded)
  then show ?thesis by (simp add: destroyed_def timerSetting_def)
qed

lemma timerSetting_step: "timerSetting (step v s ev) = timerSetting s"
proof (cases ev)
  case (AddDownload e p)
  then show ?thesis by (simp add: addDownload_def timerSetting_addDownloadAt)
next
  case (NewEntries a es)
  then show ?thesis by (simp add: timerSetting_newEntries) (simp add: timerSetting_def)
next
  case (DownloadDeleted a f)
  then show ?thesis by (simp add: timerSetting_destroyed) (simp add: timerSetting_def downloadDeleted_def)
next
  case (TimerTimeout f)
  then show ?thesis by (simp add: timerSetting_scanTheQueue) (simp add: timerSetting_def)
next
  case (NewFreePeer peer f)
  then show ?thesis by (simp add: peerNoLongerDownloadingChunk_def timerSetting_scanTheQueue)
next
  case (TransferEnded i ok f)
  then show ?thesis by (simp add: timerSetting_transferEnded)
next
  case FileCacheLoaded
  then show ?thesis by (simp add: timerSetting_fileCacheLoaded)
qed (simp_all add: timerSetting_def coolDownOver_def hashReceived_def holderFound_def
       saveQueueToFile_def setValue_def split: option.splits download.splits)

lemma timerSetting_run: "timerSetting (run v s evs) = timerSetting s"
  unfolding run_def by (induction evs arbitrary: s) (simp_all add: timerSetting_step)

text \<open>
  Claim C7. Let the scan of the queue reach a file download (the queue is \<open>pre\<close>, the file,
  \<open>rest\<close>; \<open>s1\<close> is the state after the loop has gone through \<open>pre\<close>) with the counter
  below the maximum, and let the file report a status of \<open>0x20\<close> or more. Then after
  \<open>scanTheQueue\<close> the timer is running, single-shot, with the interval
  \<open>RESCAN_QUEUE_PERIOD_IF_ERROR\<close> given to the constructor; and the loop does not stop at
  this file: the scan is the scan of \<open>rest\<close> from the state \<open>s2\<close> that the visit of the
  file leaves, which is \<open>s1\<close> with the timer started when the file has no chunk to download.
\<close>

theorem C7_soft_error_arms_timer:
  assumes "s = run v (DownloadManager n r st w) evs"
    and "downloads s = pre @ FileDownload a e p c # rest"
    and "s1 = scanLoop f pre (numberOfDownload s) s"
    and "numberOfDownload s1 < NUMBER_OF_DOWNLOADER s1"
    and "0x20 \<le> getStatus s1 a"
    and "s2 = scanLoop f [FileDownload a e p c] (numberOfDownload s1) s1"
  shows "timer (scanTheQueue f s) = \<lparr> interval = r, singleShot = True, active = True \<rparr>
    \<and> scanTheQueue f s = scanLoop f rest (numberOfDownload s2) s2
    \<and> (getAChunkToDownload s1 a = None \<longrightarrow> s2 = s1\<lparr> timer := (timer s1)\<lparr> active := True \<rparr> \<rparr>)"
proof -
  have split1: "scanTheQueue f s = scanLoop f (FileDownload a e p c # rest) (numberOfDownload s1) s1"
    unfolding scanTheQueue_def assms(2,3) by (rule scanLoop_append) simp
  have "scanLoop f ([FileDownload a e p c] @ rest) (numberOfDownload s1) s1 =
          scanLoop f rest (numberOfDownload s2) s2"
    unfolding assms(6) by (rule scanLoop_append) simp
  with split1 have cont: "scanTheQueue f s = scanLoop f rest (numberOfDownload s2) s2" by simp
  have "active (timer (scanLoop f (FileDownload a e p c # rest) (numberOfDownload s1) s1))"
    using assms(4,5) by (rule scanLoop_soft_error)
  with split1 have act: "active (timer (scanTheQueue f s))" by simp
  have "timerSetting (scanTheQueue f s) = timerSetting (DownloadManager n r st w)"
    unfolding assms(1) by (simp add: timerSetting_scanTheQueue timerSetting_run)
  then have "interval (timer (scanTheQueue f s)) = r" "singleShot (timer (scanTheQueue f s))"
    by (simp_all add: timerSetting_def DownloadManager_def)
  with act have tm: "timer (scanTheQueue f s) = \<lparr> interval = r, singleShot = True, active = True \<rparr>"
    by (cases "timer (scanTheQueue f s)") simp
  have none: "getAChunkToDownload s1 a = None \<longrightarrow> s2 = s1\<lparr> timer := (timer s1)\<lparr> active := True \<rparr> \<rparr>"
    using assms(4,5) unfolding assms(6) by (simp add: Let_def)
  from tm cont none show ?thesis by blast
qed

theorem C7_soft_error_arms_timer_witness:
  "0x20 \<le> getStatus exampleSoftError 0
   \<and> numberOfDownload exampleSoftError < NUMBER_OF_DOWNLOADER exampleSoftError
   \<and> timer (scanTheQueue (\<lambda>i. True) exampleSoftError)
        = \<lparr> interval = 1000, singleShot = True, active = True \<rparr>
   \<and> map c_status (chunks exampleSoftError) = [IDLE]
   \<and> map c_status (chunks (scanTheQueue (\<lambda>i. True) exampleSoftError)) = [DOWNLOADING]"
proof -
  have ds: "downloads exampleSoftError =
              [] @ FileDownload 0 (exampleEntry Entry_Type_FILE ''a'') ''P'' False
                 # [FileDownload 1 (exampleEntry Entry_Type_FILE ''b'') ''Q'' False]"
    by code_simp
  have s1: "exampleSoftError = scanLoop (\<lambda>i. True) [] (numberOfDownload exampleSoftError) exampleSoftError"
    by simp
  have budget: "numberOfDownload exampleSoftError < NUMBER_OF_DOWNLOADER exampleSoftError"
    by code_simp
  have soft: "0x20 \<le> getStatus exampleSoftError 0"
    by code_simp
  note C7 = C7_soft_error_arms_timer [OF exampleSoftError_def ds s1 budget soft refl]
  from C7 have tm: "timer (scanTheQueue (\<lambda>i. True) exampleSoftError)
        = \<lparr> interval = 1000, singleShot = True, active = True \<rparr>"
    by (rule conjunct1)
  have c0: "map c_status (chunks exampleSoftError) = [IDLE]" by code_simp
  have c1: "map c_status (chunks (scanTheQueue (\<lambda>i. True) exampleSoftError)) = [DOWNLOADING]"
    by code_simp
  from soft budget tm c0 c1 show ?thesis by blast
qed

section \<open>No downloader\<close>




section \<open>Claim C9: directory sizes are kept aggregated\<close>



section \<open>GUI: the pause selection, proved\<close>

lemma pauseLoop_eq:
  "pauseLoop m rows (ids, b) =
     (ids @ map (getDownloadID m) (filter (pausable m) rows),
      b \<and> list_all (isDownloadPaused m) (filter (pausable m) rows))"
  by (induction rows arbitrary: ids b) (auto simp: pausable_def Let_def)

text \<open>
  Claim C10. \<open>getDownloadIDsToPause\<close> returns, in selection order, exactly the IDs of the
  selected rows whose ID is non-zero and whose file is not complete; its boolean is true iff
  one of these rows is not paused; and \<open>pauseSelectedEntries\<close> sends nothing to the core
  when that list is empty (and one pause request with the list and the boolean otherwise).
\<close>

theorem C10_getDownloadIDsToPause:
  "fst (getDownloadIDsToPause m rows) =
      map (getDownloadID m)
        (filter (\<lambda>row. getDownloadID m row \<noteq> 0 \<and> \<not> isFileComplete m row) rows)
   \<and> (snd (getDownloadIDsToPause m rows) \<longleftrightarrow>
        (\<exists>row \<in> set rows. getDownloadID m row \<noteq> 0 \<and> \<not> isFileComplete m row
            \<and> \<not> isDownloadPaused m row))
   \<and> (fst (getDownloadIDsToPause m rows) = [] \<longrightarrow> pauseSelectedEntries m rows = [])
   \<and> (fst (getDownloadIDsToPause m rows) \<noteq> [] \<longrightarrow>
        pauseSelectedEntries m rows =
          [PauseDownloads (fst (getDownloadIDsToPause m rows))
                          (snd (getDownloadIDsToPause m rows))])"
proof -
  have f: "(\<lambda>row. getDownloadID m row \<noteq> 0 \<and> \<not> isFileComplete m row) = pausable m"
    by (simp add: fun_eq_iff pausable_def)
  have g: "getDownloadIDsToPause m rows =
             (map (getDownloadID m) (filter (pausable m) rows),
              \<not> list_all (isDownloadPaused m) (filter (pausable m) rows))"
    by (simp add: getDownloadIDsToPause_def pauseLoop_eq)
  have h: "(\<exists>row \<in> set rows. getDownloadID m row \<noteq> 0 \<and> \<not> isFileComplete m row
                 \<and> \<not> isDownloadPaused m row) \<longleftrightarrow>
           (\<not> list_all (isDownloadPaused m) (filter (pausable m) rows))"
    by (auto simp: list_all_iff pausable_def)
  show ?thesis
    unfolding f g h fst_conv snd_conv pauseSelectedEntries_def Let_def
    by simp
qed

theorem C10_getDownloadIDsToPause_witness:
  "getDownloadIDsToPause exampleModel [0, 1, 2, 3] = ([10, 13], True)
   \<and> pauseSelectedEntries exampleModel [0, 1, 2, 3] = [PauseDownloads [10, 13] True]
   \<and> getDownloadIDsToPause exampleModel [1, 2] = ([], False)
   \<and> pauseSelectedEntries exampleModel [1, 2] = []"
  using C10_getDownloadIDsToPause [of exampleModel "[0, 1, 2, 3]"]
        C10_getDownloadIDsToPause [of exampleModel "[1, 2]"]
  by (simp add: exampleModel_def prod_eq_iff)

end
